theory Spec2Isabelle
  imports Complex_Main
begin

section \<open>JSON values as Python holds them\<close>

text \<open>
  The normaliser of \<^verbatim>\<open>convert_filing_json.py\<close> works on what \<^verbatim>\<open>json.loads\<close>
  returns: \<^verbatim>\<open>None\<close>, booleans, integers, floats, strings, lists and dicts with string
  keys. A dict keeps its insertion order, so it is an association list; a Python
  dict never holds a key twice, which is the predicate \<open>wf_json\<close> below. A finite
  float is represented by its rational value (only its being zero and its numeric
  value are ever looked at).
\<close>

datatype json =
    JNone
  | JBool bool
  | JInt int
  | JFloat rat
  | JStr string
  | JList "json list"
  | JDict "(string \<times> json) list"

type_synonym dict = "(string \<times> json) list"

fun wf_json :: "json \<Rightarrow> bool" where
  "wf_json (JList xs) = list_all wf_json xs"
| "wf_json (JDict d) = (distinct (map fst d) \<and> list_all (\<lambda>kv. wf_json (snd kv)) d)"
| "wf_json _ = True"

text \<open>Python truthiness (\<^verbatim>\<open>not x\<close>, \<^verbatim>\<open>x or y\<close>).\<close>

fun truthy :: "json \<Rightarrow> bool" where
  "truthy JNone = False"
| "truthy (JBool b) = b"
| "truthy (JInt i) = (i \<noteq> 0)"
| "truthy (JFloat r) = (r \<noteq> 0)"
| "truthy (JStr s) = (s \<noteq> [])"
| "truthy (JList xs) = (xs \<noteq> [])"
| "truthy (JDict d) = (d \<noteq> [])"

definition py_or :: "json \<Rightarrow> json \<Rightarrow> json" where
  "py_or a b = (if truthy a then a else b)"

text \<open>\<^verbatim>\<open>d.get(k)\<close>: the value, or \<^verbatim>\<open>None\<close> when the key is absent.\<close>

definition dict_get :: "dict \<Rightarrow> string \<Rightarrow> json" where
  "dict_get d k = (case map_of d k of None \<Rightarrow> JNone | Some v \<Rightarrow> v)"

text \<open>\<^verbatim>\<open>k in d\<close>.\<close>

definition has_key :: "(string \<times> 'v) list \<Rightarrow> string \<Rightarrow> bool" where
  "has_key d k = (k \<in> set (map fst d))"

text \<open>
  \<^verbatim>\<open>d[k] = v\<close>, and the last entry of a display \<^verbatim>\<open>{**d, k: v}\<close>: an existing key
  keeps its place and takes the new value, a new key goes to the end.
\<close>

fun dict_set :: "(string \<times> 'v) list \<Rightarrow> string \<Rightarrow> 'v \<Rightarrow> (string \<times> 'v) list" where
  "dict_set [] k v = [(k, v)]"
| "dict_set ((k', v') # d) k v =
     (if k' = k then (k, v) # d else (k', v') # dict_set d k v)"

text \<open>\<^verbatim>\<open>{k: v for k, v in d.items() if k != name}\<close>.\<close>

definition dict_without :: "string \<Rightarrow> (string \<times> 'v) list \<Rightarrow> (string \<times> 'v) list" where
  "dict_without name d = filter (\<lambda>kv. fst kv \<noteq> name) d"

text \<open>\<^verbatim>\<open>str(n)\<close> for a non-negative integer: its decimal digits.\<close>

definition digit_char :: "nat \<Rightarrow> char" where
  "digit_char n = ''0123456789'' ! n"

fun str_of_nat :: "nat \<Rightarrow> string" where
  "str_of_nat n =
     (if n < 10 then [digit_char n] else str_of_nat (n div 10) @ [digit_char (n mod 10)])"

declare str_of_nat.simps [simp del]

section \<open>The normaliser\<close>

text \<open>
  \<^verbatim>\<open>transform_sections\<close>, list branch: one turn of
  \<^verbatim>\<open>for idx, sec in enumerate(sections_obj)\<close>, with \<open>out\<close> the list built so far.
\<close>

definition sections_list_step :: "json list \<Rightarrow> nat \<times> json \<Rightarrow> json list" where
  "sections_list_step out p =
     (case p of (idx, sec) \<Rightarrow>
        (case sec of
           JDict d \<Rightarrow>
             (if \<not> has_key d ''section_id''
              then out @ [JDict (dict_set d ''section_id'' (JStr (''section_'' @ str_of_nat idx)))]
              else out @ [JDict d])
         | _ \<Rightarrow> out))"

text \<open>Mapping branch: one turn of \<^verbatim>\<open>for key, value in sections_obj.items()\<close>.\<close>

definition sections_dict_step :: "json list \<Rightarrow> string \<times> json \<Rightarrow> json list" where
  "sections_dict_step result p =
     (case p of (key, value) \<Rightarrow>
        (case value of
           JDict d \<Rightarrow> result @ [JDict (dict_set d ''section_id'' (JStr key))]
         | _ \<Rightarrow> result @ [JDict [(''section_id'', JStr key), (''value'', value)]]))"

fun transform_sections :: "json \<Rightarrow> json list" where
  "transform_sections (JList xs) = foldl sections_list_step [] (enumerate 0 xs)"
| "transform_sections (JDict m) = foldl sections_dict_step [] m"
| "transform_sections _ = []"

text \<open>\<^verbatim>\<open>transform_parts\<close>, list branch: one turn of \<^verbatim>\<open>for part in parts_obj\<close>.\<close>

definition parts_list_step :: "json list \<Rightarrow> json \<Rightarrow> json list" where
  "parts_list_step out part =
     (case part of
        JDict p \<Rightarrow>
          (let part_name = dict_get p ''part_name'';
               sections = transform_sections (dict_get p ''sections'');
               base = dict_without ''sections'' p;
               base = dict_set base ''sections'' (JList sections);
               base = (if \<not> truthy (dict_get base ''part_name'')
                       then dict_set base ''part_name'' (py_or part_name (JStr ''Part''))
                       else base)
           in out @ [JDict base])
      | _ \<Rightarrow> out)"

text \<open>Mapping branch: one turn of \<^verbatim>\<open>for key, value in parts_obj.items()\<close>.\<close>

definition parts_dict_step :: "json list \<Rightarrow> string \<times> json \<Rightarrow> json list" where
  "parts_dict_step out p =
     (case p of (key, value) \<Rightarrow>
        (case value of
           JDict d \<Rightarrow>
             (let part_name = py_or (dict_get d ''part_name'') (JStr key);
                  sections = transform_sections (dict_get d ''sections'');
                  base = dict_without ''sections'' d;
                  base = dict_set base ''part_name'' part_name;
                  base = dict_set base ''sections'' (JList sections)
              in out @ [JDict base])
         | _ \<Rightarrow>
             out @ [JDict [(''part_name'', JStr key), (''value'', value),
                           (''sections'', JList [])]]))"

fun transform_parts :: "json \<Rightarrow> json list" where
  "transform_parts (JList xs) = foldl parts_list_step [] xs"
| "transform_parts (JDict m) = foldl parts_dict_step [] m"
| "transform_parts _ = []"

definition transform_document :: "dict \<Rightarrow> dict" where
  "transform_document doc =
     (let top = dict_without ''parts'' doc;
          parts = transform_parts (dict_get doc ''parts'')
      in dict_set top ''parts'' (JList parts))"

section \<open>The driver\<close>

text \<open>
  The part of \<^verbatim>\<open>main\<close> between reading and writing: a list is mapped by the
  comprehension \<^verbatim>\<open>[transform_document(d) for d in data if isinstance(d, dict)]\<close>;
  anything else goes to \<^verbatim>\<open>transform_document\<close>, whose \<^verbatim>\<open>doc.items()\<close> raises
  \<^verbatim>\<open>AttributeError\<close> on a value that is not a dict.
\<close>

datatype py_error = AttributeError | TypeError

definition main_transform :: "json \<Rightarrow> py_error + json" where
  "main_transform data =
     (case data of
        JList ds \<Rightarrow>
          Inr (JList (List.map_filter
                 (\<lambda>d. case d of JDict doc \<Rightarrow> Some (JDict (transform_document doc)) | _ \<Rightarrow> None) ds))
      | JDict doc \<Rightarrow> Inr (JDict (transform_document doc))
      | _ \<Rightarrow> Inl AttributeError)"

section \<open>The specification's wording of the section rules\<close>

text \<open>
  A record is a JSON object (a Python \<^verbatim>\<open>dict\<close>). The two functions below say, in the
  specification's words, what one element of a list of sections and one entry of a
  mapping of sections become.
\<close>

definition is_record :: "json \<Rightarrow> bool" where
  "is_record v = (case v of JDict d \<Rightarrow> True | _ \<Rightarrow> False)"

definition the_record :: "json \<Rightarrow> dict" where
  "the_record v = (case v of JDict d \<Rightarrow> d | _ \<Rightarrow> [])"

definition list_section_spec :: "nat \<times> json \<Rightarrow> json" where
  "list_section_spec p =
     (case p of (idx, sec) \<Rightarrow>
        (let d = the_record sec
         in if has_key d ''section_id'' then JDict d
            else JDict (d @ [(''section_id'', JStr (''section_'' @ str_of_nat idx))])))"

definition dict_section_spec :: "string \<times> json \<Rightarrow> json" where
  "dict_section_spec p =
     (case p of (key, value) \<Rightarrow>
        if is_record value then JDict (dict_set (the_record value) ''section_id'' (JStr key))
        else JDict [(''section_id'', JStr key), (''value'', value)])"

text \<open>
  Reading a string as a decimal numeral, to say what \<^verbatim>\<open>str(idx)\<close> is without
  naming the function that writes it: all characters are digits, and their value in
  base ten is the number.
\<close>

definition is_digit :: "char \<Rightarrow> bool" where
  "is_digit c = (c \<in> set ''0123456789'')"

definition digit_value :: "char \<Rightarrow> nat" where
  "digit_value c = of_char c - 48"

definition decimal_value :: "string \<Rightarrow> nat" where
  "decimal_value s = foldl (\<lambda>a c. 10 * a + digit_value c) 0 s"

text \<open>
  One entry of a mapping of parts, in the specification's words; and the body of the
  list loop of \<^verbatim>\<open>transform_parts\<close> for a record element.
\<close>

definition dict_part_spec :: "string \<times> json \<Rightarrow> json" where
  "dict_part_spec p =
     (case p of (key, value) \<Rightarrow>
        if is_record value
        then (let d = the_record value;
                  name = (if has_key d ''part_name'' \<and> truthy (dict_get d ''part_name'')
                          then dict_get d ''part_name'' else JStr key)
              in JDict (dict_set (dict_set (dict_without ''sections'' d) ''part_name'' name)
                          ''sections'' (JList (transform_sections (dict_get d ''sections'')))))
        else JDict [(''part_name'', JStr key), (''value'', value), (''sections'', JList [])])"

definition list_part :: "json \<Rightarrow> json" where
  "list_part part =
     (let p = the_record part;
          base = dict_set (dict_without ''sections'' p) ''sections''
                   (JList (transform_sections (dict_get p ''sections'')))
      in JDict (if \<not> truthy (dict_get base ''part_name'')
                then dict_set base ''part_name'' (py_or (dict_get p ''part_name'') (JStr ''Part''))
                else base))"

text \<open>Reading a normalised document: its parts, and the ids of a part's sections.\<close>

definition section_id_of :: "json \<Rightarrow> json" where
  "section_id_of sec = dict_get (the_record sec) ''section_id''"

definition document_parts :: "dict \<Rightarrow> json list" where
  "document_parts doc = (case dict_get doc ''parts'' of JList ps \<Rightarrow> ps | _ \<Rightarrow> [])"

definition part_section_ids :: "json \<Rightarrow> json list" where
  "part_section_ids part =
     (case dict_get (the_record part) ''sections'' of
        JList secs \<Rightarrow> map section_id_of secs
      | _ \<Rightarrow> [])"

section \<open>Python's equality, and the shape of a normalised part\<close>

text \<open>
  \<^verbatim>\<open>==\<close> on the values above: numbers (booleans included) compare by value, strings
  and \<^verbatim>\<open>None\<close> by identity of content, lists element by element, and two dicts are equal
  when they have the same number of entries and every key of the left one is in the
  right one with an equal value, whatever the order of the keys.
\<close>

definition py_num :: "json \<Rightarrow> rat option" where
  "py_num v = (case v of JBool b \<Rightarrow> Some (if b then 1 else 0) | JInt i \<Rightarrow> Some (of_int i)
                | JFloat r \<Rightarrow> Some r | _ \<Rightarrow> None)"

fun py_eq :: "json \<Rightarrow> json \<Rightarrow> bool" where
  "py_eq (JList xs) b = (case b of JList ys \<Rightarrow> list_all2 py_eq xs ys | _ \<Rightarrow> False)"
| "py_eq (JDict d) b =
     (case b of
        JDict e \<Rightarrow>
          length d = length e \<and>
          list_all (\<lambda>kv. case map_of e (fst kv) of None \<Rightarrow> False | Some w \<Rightarrow> py_eq (snd kv) w) d
      | _ \<Rightarrow> False)"
| "py_eq (JStr s) b = (b = JStr s)"
| "py_eq JNone b = (b = JNone)"
| "py_eq a b = (case py_num b of None \<Rightarrow> False | Some y \<Rightarrow> py_num a = Some y)"

text \<open>
  A section that carries an id; a part as the second pass needs it (a truthy name and
  a list of sections that carry ids); and the condition on the input under which the
  mapping branch of \<^verbatim>\<open>transform_parts\<close> gives every part a truthy name: no entry of a
  mapping of parts has the empty string as key unless it is a record with a truthy
  \<^verbatim>\<open>part_name\<close> of its own.
\<close>

definition section_ok :: "json \<Rightarrow> bool" where
  "section_ok s = (is_record s \<and> has_key (the_record s) ''section_id'')"

definition normal_part :: "json \<Rightarrow> bool" where
  "normal_part part =
     (is_record part \<and> truthy (dict_get (the_record part) ''part_name'') \<and>
      (case map_of (the_record part) ''sections'' of
         Some (JList secs) \<Rightarrow> list_all section_ok secs
       | _ \<Rightarrow> False))"

definition named_entry :: "string \<times> json \<Rightarrow> bool" where
  "named_entry kv =
     (fst kv \<noteq> [] \<or> (is_record (snd kv) \<and> truthy (dict_get (the_record (snd kv)) ''part_name'')))"

definition parts_named :: "dict \<Rightarrow> bool" where
  "parts_named doc = (case dict_get doc ''parts'' of JDict m \<Rightarrow> list_all named_entry m | _ \<Rightarrow> True)"

section \<open>The same code on objects and references\<close>

text \<open>
  Python lists and dicts are objects that are reached through references and changed
  in place. To say that the normaliser leaves its argument alone and raises nothing,
  the functions are modelled a second time with an explicit heap: a value is a
  scalar or a reference, the heap is the list of the objects allocated so far (an
  address is an index, a new object goes to the end), and every operation that Python
  can refuse returns an exception as a value.
\<close>

datatype val = VNone | VBool bool | VInt int | VFloat rat | VStr string | VRef nat

datatype obj = OList "val list" | ODict "(string \<times> val) list"

type_synonym heap = "obj list"

text \<open>
  Sequencing of statements that may raise; and reading the object behind a value
  (none behind a scalar or a dangling address).
\<close>

definition andthen :: "py_error + 'a \<Rightarrow> ('a \<Rightarrow> py_error + 'b) \<Rightarrow> py_error + 'b" where
  "andthen m f = (case m of Inl e \<Rightarrow> Inl e | Inr x \<Rightarrow> f x)"

definition lookup :: "heap \<Rightarrow> val \<Rightarrow> obj option" where
  "lookup h v = (case v of VRef a \<Rightarrow> (if a < length h then Some (h ! a) else None) | _ \<Rightarrow> None)"

text \<open>
  \<^verbatim>\<open>isinstance(x, list)\<close>, \<^verbatim>\<open>isinstance(x, dict)\<close>, and truthiness, which for a
  container asks the heap whether it is empty.
\<close>

definition isinstance_list :: "heap \<Rightarrow> val \<Rightarrow> bool" where
  "isinstance_list h v = (case lookup h v of Some (OList xs) \<Rightarrow> True | _ \<Rightarrow> False)"

definition isinstance_dict :: "heap \<Rightarrow> val \<Rightarrow> bool" where
  "isinstance_dict h v = (case lookup h v of Some (ODict d) \<Rightarrow> True | _ \<Rightarrow> False)"

definition truthy_h :: "heap \<Rightarrow> val \<Rightarrow> bool" where
  "truthy_h h v =
     (case v of
        VNone \<Rightarrow> False
      | VBool b \<Rightarrow> b
      | VInt i \<Rightarrow> i \<noteq> 0
      | VFloat r \<Rightarrow> r \<noteq> 0
      | VStr s \<Rightarrow> s \<noteq> []
      | VRef a \<Rightarrow> (case lookup h v of
                     Some (OList xs) \<Rightarrow> xs \<noteq> []
                   | Some (ODict d) \<Rightarrow> d \<noteq> []
                   | None \<Rightarrow> True))"

text \<open>
  Creating an object, and overwriting the object at an address: the only two ways the
  heap changes.
\<close>

definition alloc :: "obj \<Rightarrow> heap \<Rightarrow> val \<times> heap" where
  "alloc ob h = (VRef (length h), h @ [ob])"

definition store :: "heap \<Rightarrow> val \<Rightarrow> obj \<Rightarrow> heap" where
  "store h v ob = (case v of VRef a \<Rightarrow> h[a := ob] | _ \<Rightarrow> h)"

text \<open>
  The operations the code uses. Iterating over \<^verbatim>\<open>x\<close> or \<^verbatim>\<open>enumerate(x)\<close> reads the
  elements of a list; \<^verbatim>\<open>x.items()\<close> and \<^verbatim>\<open>x.get(k)\<close> need a dict and raise
  \<^verbatim>\<open>AttributeError\<close> on anything else; \<^verbatim>\<open>k in x\<close>, \<^verbatim>\<open>{**x, k: v}\<close> and
  \<^verbatim>\<open>x[k] = v\<close> are given for a dict and reported as \<^verbatim>\<open>TypeError\<close> otherwise;
  \<^verbatim>\<open>x.append(v)\<close> rewrites the list at the address of \<^verbatim>\<open>x\<close>;
  \<^verbatim>\<open>{k: v for k, v in x.items() if k != name}\<close> creates a new dict.
\<close>

definition list_items :: "heap \<Rightarrow> val \<Rightarrow> py_error + val list" where
  "list_items h v = (case lookup h v of Some (OList xs) \<Rightarrow> Inr xs | _ \<Rightarrow> Inl TypeError)"

definition dict_items :: "heap \<Rightarrow> val \<Rightarrow> py_error + (string \<times> val) list" where
  "dict_items h v = (case lookup h v of Some (ODict d) \<Rightarrow> Inr d | _ \<Rightarrow> Inl AttributeError)"

definition entries_get :: "(string \<times> val) list \<Rightarrow> string \<Rightarrow> val" where
  "entries_get d k = (case map_of d k of None \<Rightarrow> VNone | Some w \<Rightarrow> w)"

definition get_h :: "heap \<Rightarrow> val \<Rightarrow> string \<Rightarrow> py_error + val" where
  "get_h h v k =
     (case lookup h v of
        Some (ODict d) \<Rightarrow> Inr (entries_get d k)
      | _ \<Rightarrow> Inl AttributeError)"

definition contains_h :: "heap \<Rightarrow> string \<Rightarrow> val \<Rightarrow> py_error + bool" where
  "contains_h h k v =
     (case lookup h v of
        Some (ODict d) \<Rightarrow> Inr (has_key d k)
      | _ \<Rightarrow> Inl TypeError)"

definition append_h :: "val \<Rightarrow> val \<Rightarrow> heap \<Rightarrow> py_error + heap" where
  "append_h lst v h =
     (case lookup h lst of
        Some (OList xs) \<Rightarrow> Inr (store h lst (OList (xs @ [v])))
      | _ \<Rightarrow> Inl AttributeError)"

definition setitem_h :: "val \<Rightarrow> string \<Rightarrow> val \<Rightarrow> heap \<Rightarrow> py_error + heap" where
  "setitem_h dct k v h =
     (case lookup h dct of
        Some (ODict d) \<Rightarrow> Inr (store h dct (ODict (dict_set d k v)))
      | _ \<Rightarrow> Inl TypeError)"

definition display_h :: "val \<Rightarrow> string \<Rightarrow> val \<Rightarrow> heap \<Rightarrow> py_error + val \<times> heap" where
  "display_h src k v h =
     (case lookup h src of
        Some (ODict d) \<Rightarrow> Inr (alloc (ODict (dict_set d k v)) h)
      | _ \<Rightarrow> Inl TypeError)"

definition without_h :: "string \<Rightarrow> val \<Rightarrow> heap \<Rightarrow> py_error + val \<times> heap" where
  "without_h name src h =
     andthen (dict_items h src)
       (\<lambda>items. Inr (alloc (ODict (dict_without name items)) h))"

text \<open>
  A \<^verbatim>\<open>for\<close> loop over the elements read at its start: the body runs on each in turn
  and the first exception ends the loop.
\<close>

fun for_each :: "('a \<Rightarrow> heap \<Rightarrow> py_error + heap) \<Rightarrow> 'a list \<Rightarrow> heap \<Rightarrow> py_error + heap" where
  "for_each body [] h = Inr h"
| "for_each body (x # xs) h = andthen (body x h) (for_each body xs)"

text \<open>
  \<^verbatim>\<open>transform_sections\<close>: the two loop bodies, with \<^verbatim>\<open>out\<close> (or \<^verbatim>\<open>result\<close>) the
  reference to the list being built, and the function.
\<close>

definition sections_list_body :: "val \<Rightarrow> nat \<times> val \<Rightarrow> heap \<Rightarrow> py_error + heap" where
  "sections_list_body out p h =
     (case p of (idx, sec) \<Rightarrow>
        if isinstance_dict h sec
        then andthen (contains_h h ''section_id'' sec) (\<lambda>present.
             andthen (if \<not> present
                      then display_h sec ''section_id'' (VStr (''section_'' @ str_of_nat idx)) h
                      else Inr (sec, h)) (\<lambda>(sec', h1).
             append_h out sec' h1))
        else Inr h)"

definition sections_dict_body :: "val \<Rightarrow> string \<times> val \<Rightarrow> heap \<Rightarrow> py_error + heap" where
  "sections_dict_body result p h =
     (case p of (key, value) \<Rightarrow>
        if isinstance_dict h value
        then andthen (display_h value ''section_id'' (VStr key) h) (\<lambda>(sec, h1).
             append_h result sec h1)
        else (case alloc (ODict [(''section_id'', VStr key), (''value'', value)]) h of
                (sec, h1) \<Rightarrow> append_h result sec h1))"

definition transform_sections_h :: "val \<Rightarrow> heap \<Rightarrow> py_error + val \<times> heap" where
  "transform_sections_h sections_obj h =
     (if isinstance_list h sections_obj
      then (case alloc (OList []) h of (out, h1) \<Rightarrow>
              andthen (list_items h1 sections_obj) (\<lambda>items.
              andthen (for_each (sections_list_body out) (enumerate 0 items) h1) (\<lambda>h2.
              Inr (out, h2))))
      else if isinstance_dict h sections_obj
      then (case alloc (OList []) h of (result, h1) \<Rightarrow>
              andthen (dict_items h1 sections_obj) (\<lambda>items.
              andthen (for_each (sections_dict_body result) items h1) (\<lambda>h2.
              Inr (result, h2))))
      else Inr (alloc (OList []) h))"

text \<open>
  \<^verbatim>\<open>transform_parts\<close>: \<^verbatim>\<open>out = []\<close> is created before the type tests, and the last
  \<^verbatim>\<open>return []\<close> creates another list.
\<close>

definition parts_list_body :: "val \<Rightarrow> val \<Rightarrow> heap \<Rightarrow> py_error + heap" where
  "parts_list_body out part h =
     (if \<not> isinstance_dict h part then Inr h
      else andthen (get_h h part ''part_name'') (\<lambda>part_name.
           andthen (get_h h part ''sections'') (\<lambda>raw.
           andthen (transform_sections_h raw h) (\<lambda>(sections, h1).
           andthen (without_h ''sections'' part h1) (\<lambda>(base, h2).
           andthen (setitem_h base ''sections'' sections h2) (\<lambda>h3.
           andthen (get_h h3 base ''part_name'') (\<lambda>name.
           andthen (if \<not> truthy_h h3 name
                    then setitem_h base ''part_name''
                           (if truthy_h h3 part_name then part_name else VStr ''Part'') h3
                    else Inr h3) (\<lambda>h4.
           append_h out base h4))))))))"

definition parts_dict_body :: "val \<Rightarrow> string \<times> val \<Rightarrow> heap \<Rightarrow> py_error + heap" where
  "parts_dict_body out p h =
     (case p of (key, value) \<Rightarrow>
        if isinstance_dict h value
        then andthen (get_h h value ''part_name'') (\<lambda>own.
             andthen (Inr (if truthy_h h own then own else VStr key)) (\<lambda>part_name.
             andthen (get_h h value ''sections'') (\<lambda>raw.
             andthen (transform_sections_h raw h) (\<lambda>(sections, h1).
             andthen (without_h ''sections'' value h1) (\<lambda>(base, h2).
             andthen (setitem_h base ''part_name'' part_name h2) (\<lambda>h3.
             andthen (setitem_h base ''sections'' sections h3) (\<lambda>h4.
             append_h out base h4)))))))
        else (case alloc (OList []) h of (secs, h1) \<Rightarrow>
              (case alloc (ODict [(''part_name'', VStr key), (''value'', value),
                                  (''sections'', secs)]) h1 of
                 (part, h2) \<Rightarrow> append_h out part h2)))"

definition transform_parts_h :: "val \<Rightarrow> heap \<Rightarrow> py_error + val \<times> heap" where
  "transform_parts_h parts_obj h =
     (case alloc (OList []) h of (out, h1) \<Rightarrow>
        if isinstance_list h1 parts_obj
        then andthen (list_items h1 parts_obj) (\<lambda>items.
             andthen (for_each (parts_list_body out) items h1) (\<lambda>h2.
             Inr (out, h2)))
        else if isinstance_dict h1 parts_obj
        then andthen (dict_items h1 parts_obj) (\<lambda>items.
             andthen (for_each (parts_dict_body out) items h1) (\<lambda>h2.
             Inr (out, h2)))
        else Inr (alloc (OList []) h1))"


text \<open>json.loads: building a value in the heap\<close>

text \<open>
  The link between the two models. A value represents a JSON value in a heap when
  following its references gives that value; the relation is taken over a partial
  view of the heap (the cells outside a set of addresses), so that a fact about a
  value can be kept while an object it does not reach is overwritten. Between two
  heaps, \<open>upd_only B\<close> says that the second one is at least as long and differs
  from the first on its addresses only inside \<open>B\<close>.
\<close>

definition cells_except :: "nat set \<Rightarrow> heap \<Rightarrow> nat \<Rightarrow> obj option" where
  "cells_except A h a = (if a < length h \<and> a \<notin> A then Some (h ! a) else None)"

inductive repr :: "(nat \<Rightarrow> obj option) \<Rightarrow> val \<Rightarrow> json \<Rightarrow> bool" for c where
  repr_None: "repr c VNone JNone"
| repr_Bool: "repr c (VBool b) (JBool b)"
| repr_Int: "repr c (VInt i) (JInt i)"
| repr_Float: "repr c (VFloat r) (JFloat r)"
| repr_Str: "repr c (VStr s) (JStr s)"
| repr_List: "c a = Some (OList vs) \<Longrightarrow> list_all2 (repr c) vs js \<Longrightarrow> repr c (VRef a) (JList js)"
| repr_Dict: "c a = Some (ODict kvs) \<Longrightarrow>
              list_all2 (\<lambda>kv e. fst kv = fst e \<and> repr c (snd kv) (snd e)) kvs d \<Longrightarrow>
              repr c (VRef a) (JDict d)"

definition entries_rel :: "(nat \<Rightarrow> obj option) \<Rightarrow> (string \<times> val) list \<Rightarrow> dict \<Rightarrow> bool" where
  "entries_rel c kvs d = list_all2 (\<lambda>kv e. fst kv = fst e \<and> repr c (snd kv) (snd e)) kvs d"

definition represents :: "heap \<Rightarrow> val \<Rightarrow> json \<Rightarrow> bool" where
  "represents h v j = repr (cells_except {} h) v j"

definition upd_only :: "nat set \<Rightarrow> heap \<Rightarrow> heap \<Rightarrow> bool" where
  "upd_only B h h' = (length h \<le> length h' \<and> (\<forall>a < length h. a \<notin> B \<longrightarrow> h' ! a = h ! a))"

section \<open>Facts about dicts and the iterations\<close>

lemma is_record_simps [simp]:
  "is_record (JDict d)" "\<not> is_record JNone" "\<not> is_record (JBool b)" "\<not> is_record (JInt i)"
  "\<not> is_record (JFloat r)" "\<not> is_record (JStr s)" "\<not> is_record (JList xs)"
  by (simp_all add: is_record_def)

lemma the_record_JDict [simp]: "the_record (JDict d) = d"
  by (simp add: the_record_def)

lemma foldl_append_step:
  assumes "\<And>acc x. step acc x = acc @ g x"
  shows "foldl step acc xs = acc @ concat (map g xs)"
proof (induction xs arbitrary: acc)
  case Nil
  show ?case by simp
next
  case (Cons x xs)
  have "foldl step acc (x # xs) = foldl step (step acc x) xs"
    by simp
  also have "step acc x = acc @ g x"
    by (rule assms)
  also have "foldl step (acc @ g x) xs = (acc @ g x) @ concat (map g xs)"
    by (rule Cons.IH)
  finally show ?case by simp
qed

lemma sections_list_step_append:
  "sections_list_step out p = out @ sections_list_step [] p"
  by (simp add: sections_list_step_def split: prod.splits json.splits)

lemma sections_dict_step_append:
  "sections_dict_step out p = out @ sections_dict_step [] p"
  by (simp add: sections_dict_step_def split: prod.splits json.splits)

lemma parts_list_step_append:
  "parts_list_step out p = out @ parts_list_step [] p"
  by (simp add: parts_list_step_def Let_def split: json.splits)

lemma parts_dict_step_append:
  "parts_dict_step out p = out @ parts_dict_step [] p"
  by (simp add: parts_dict_step_def Let_def split: prod.splits json.splits)

lemma dict_set_absent: "\<not> has_key d k \<Longrightarrow> dict_set d k v = d @ [(k, v)]"
  by (induction d) (auto simp: has_key_def)

lemma dict_get_dict_set_same [simp]: "dict_get (dict_set d k v) k = v"
  by (induction d) (auto simp: dict_get_def)

lemma map_of_dict_set_other: "k' \<noteq> k \<Longrightarrow> map_of (dict_set d k v) k' = map_of d k'"
  by (induction d) auto

lemma dict_get_dict_set_other [simp]: "k' \<noteq> k \<Longrightarrow> dict_get (dict_set d k v) k' = dict_get d k'"
  by (simp add: dict_get_def map_of_dict_set_other)

lemma map_fst_dict_set:
  "map fst (dict_set d k v) = (if has_key d k then map fst d else map fst d @ [k])"
  by (induction d) (force simp: has_key_def)+

lemma keys_dict_set: "set (map fst (dict_set d k v)) = insert k (set (map fst d))"
  by (auto simp: map_fst_dict_set has_key_def simp del: set_map)

lemma has_key_dict_set [simp]: "has_key (dict_set d k v) k' = (k' = k \<or> has_key d k')"
  by (auto simp: has_key_def keys_dict_set simp del: set_map)

lemma dict_without_dict_set_other:
  "k \<noteq> name \<Longrightarrow> dict_without name (dict_set d k v) = dict_set (dict_without name d) k v"
  by (induction d) (auto simp: dict_without_def)

lemma dict_without_dict_set_same:
  "dict_without k (dict_set d k v) = dict_without k d"
  by (induction d) (auto simp: dict_without_def)

lemma has_key_dict_without [simp]: "has_key (dict_without name d) k = (k \<noteq> name \<and> has_key d k)"
  by (auto simp: has_key_def dict_without_def)

lemma map_of_dict_without: "k \<noteq> name \<Longrightarrow> map_of (dict_without name d) k = map_of d k"
  by (induction d) (auto simp: dict_without_def)

lemma dict_get_dict_without [simp]: "k \<noteq> name \<Longrightarrow> dict_get (dict_without name d) k = dict_get d k"
  by (simp add: dict_get_def map_of_dict_without)

lemma sections_list_step_Nil:
  "sections_list_step [] = (\<lambda>p. if is_record (snd p) then [list_section_spec p] else [])"
  by (rule ext, case_tac p) (simp add: sections_list_step_def list_section_spec_def dict_set_absent split: json.splits)

lemma concat_map_if_filter:
  "concat (map (\<lambda>x. if P x then [f x] else []) xs) = map f (filter P xs)"
  by (induction xs) auto

lemma transform_sections_list_eq:
  "transform_sections (JList xs) = map list_section_spec (filter (\<lambda>p. is_record (snd p)) (enumerate 0 xs))"
proof -
  have "foldl sections_list_step [] (enumerate 0 xs)
        = [] @ concat (map (sections_list_step []) (enumerate 0 xs))"
    by (rule foldl_append_step) (rule sections_list_step_append)
  also have "\<dots> = concat (map (\<lambda>p. if is_record (snd p) then [list_section_spec p] else []) (enumerate 0 xs))"
    by (simp add: sections_list_step_Nil)
  also have "\<dots> = map list_section_spec (filter (\<lambda>p. is_record (snd p)) (enumerate 0 xs))"
    by (rule concat_map_if_filter)
  finally show ?thesis by simp
qed

lemma sections_dict_step_Nil: "sections_dict_step [] = (\<lambda>p. [dict_section_spec p])"
  by (rule ext, case_tac p) (simp add: sections_dict_step_def dict_section_spec_def split: json.splits)

lemma transform_sections_dict_eq:
  "transform_sections (JDict m) = map dict_section_spec m"
proof -
  have "foldl sections_dict_step [] m = [] @ concat (map (sections_dict_step []) m)"
    by (rule foldl_append_step) (rule sections_dict_step_append)
  then show ?thesis
    by (simp add: sections_dict_step_Nil)
qed

lemma map_snd_filter_enumerate:
  "map snd (filter (\<lambda>p. P (snd p)) (enumerate n xs)) = filter P xs"
  by (induction xs arbitrary: n) auto

lemma length_filter_enumerate:
  "length (filter (\<lambda>p. P (snd p)) (enumerate n xs)) = length (filter P xs)"
  by (metis length_map map_snd_filter_enumerate)

lemma enumerate_append:
  "enumerate n (xs @ ys) = enumerate n xs @ enumerate (n + length xs) ys"
  by (induction xs arbitrary: n) auto

lemma filter_enumerate_nth:
  assumes "i < length xs" and "P (xs ! i)"
  shows "filter (\<lambda>p. P (snd p)) (enumerate n xs) ! length (filter P (take i xs)) = (n + i, xs ! i)"
    and "length (filter P (take i xs)) < length (filter (\<lambda>p. P (snd p)) (enumerate n xs))"
proof -
  let ?Q = "\<lambda>p. P (snd p)"
  have xs: "xs = take i xs @ xs ! i # drop (Suc i) xs"
    using assms(1) by (simp add: id_take_nth_drop)
  have len: "length (take i xs) = i"
    using assms(1) by simp
  have "enumerate n xs = enumerate n (take i xs @ xs ! i # drop (Suc i) xs)"
    using xs by simp
  also have "\<dots> = enumerate n (take i xs) @ (n + i, xs ! i) # enumerate (Suc (n + i)) (drop (Suc i) xs)"
    by (simp only: enumerate_append len enumerate_simps)
  finally have "filter ?Q (enumerate n xs) =
      filter ?Q (enumerate n (take i xs)) @ (n + i, xs ! i) # filter ?Q (enumerate (Suc (n + i)) (drop (Suc i) xs))"
    using assms(2) by simp
  then show "filter ?Q (enumerate n xs) ! length (filter P (take i xs)) = (n + i, xs ! i)"
    and "length (filter P (take i xs)) < length (filter ?Q (enumerate n xs))"
    by (simp_all add: nth_append length_filter_enumerate)
qed

lemma transform_sections_list_nth:
  assumes "i < length xs" and "xs ! i = JDict d"
  shows "transform_sections (JList xs) ! length (filter is_record (take i xs)) = list_section_spec (i, JDict d)"
    and "length (filter is_record (take i xs)) < length (transform_sections (JList xs))"
proof -
  have rec: "is_record (xs ! i)"
    using assms(2) by simp
  note nth = filter_enumerate_nth [of i xs is_record 0, OF assms(1) rec]
  show "length (filter is_record (take i xs)) < length (transform_sections (JList xs))"
    using nth(2) by (simp add: transform_sections_list_eq del: transform_sections.simps)
  show "transform_sections (JList xs) ! length (filter is_record (take i xs)) = list_section_spec (i, JDict d)"
    using nth by (simp add: transform_sections_list_eq assms(2) del: transform_sections.simps)
qed

lemma dict_get_absent: "\<not> has_key d k \<Longrightarrow> dict_get d k = JNone"
  by (induction d) (auto simp: dict_get_def has_key_def)

lemma parts_dict_step_Nil: "parts_dict_step [] = (\<lambda>p. [dict_part_spec p])"
proof (rule ext)
  fix p :: "string \<times> json"
  obtain key v where p: "p = (key, v)" by (cases p)
  show "parts_dict_step [] p = [dict_part_spec p]"
  proof (cases "is_record v")
    case True
    then obtain d where v: "v = JDict d"
      by (cases v) simp_all
    have "py_or (dict_get d ''part_name'') (JStr key)
        = (if has_key d ''part_name'' \<and> truthy (dict_get d ''part_name'')
           then dict_get d ''part_name'' else JStr key)"
      by (cases "has_key d ''part_name''") (simp_all add: py_or_def dict_get_absent)
    then show ?thesis
      by (simp add: p v parts_dict_step_def dict_part_spec_def Let_def)
  next
    case False
    then show ?thesis
      by (cases v) (simp_all add: p parts_dict_step_def dict_part_spec_def)
  qed
qed

lemma transform_parts_dict_eq: "transform_parts (JDict m) = map dict_part_spec m"
proof -
  have "foldl parts_dict_step [] m = [] @ concat (map (parts_dict_step []) m)"
    by (rule foldl_append_step) (rule parts_dict_step_append)
  then show ?thesis
    by (simp add: parts_dict_step_Nil)
qed

lemma parts_list_step_Nil:
  "parts_list_step [] = (\<lambda>part. if is_record part then [list_part part] else [])"
  by (rule ext, case_tac part) (simp_all add: parts_list_step_def list_part_def Let_def)

lemma transform_parts_list_eq:
  "transform_parts (JList xs) = map list_part (filter is_record xs)"
proof -
  have "foldl parts_list_step [] xs = [] @ concat (map (parts_list_step []) xs)"
    by (rule foldl_append_step) (rule parts_list_step_append)
  also have "\<dots> = concat (map (\<lambda>part. if is_record part then [list_part part] else []) xs)"
    by (simp add: parts_list_step_Nil)
  also have "\<dots> = map list_part (filter is_record xs)"
    by (rule concat_map_if_filter)
  finally show ?thesis by simp
qed

lemma filter_nth_position:
  assumes "i < length xs" and "P (xs ! i)"
  shows "filter P xs ! length (filter P (take i xs)) = xs ! i"
    and "length (filter P (take i xs)) < length (filter P xs)"
proof -
  have "xs = take i xs @ xs ! i # drop (Suc i) xs"
    using assms(1) by (simp add: id_take_nth_drop)
  then have "filter P xs = filter P (take i xs) @ xs ! i # filter P (drop (Suc i) xs)"
    using assms(2) by (metis filter.simps(2) filter_append)
  then show "filter P xs ! length (filter P (take i xs)) = xs ! i"
    and "length (filter P (take i xs)) < length (filter P xs)"
    by simp_all
qed

lemma dict_without_twice: "dict_without a (dict_without a d) = dict_without a d"
  by (simp add: dict_without_def)

lemma str_of_nat_nonempty: "str_of_nat n \<noteq> []"
  by (subst str_of_nat.simps) simp

lemma digit_char_cases:
  assumes "k < 10"
  shows "digit_value (digit_char k) = k \<and> is_digit (digit_char k)
         \<and> ((digit_char k = CHR ''0'') = (k = 0))"
proof -
  have "k = 0 \<or> k = 1 \<or> k = 2 \<or> k = 3 \<or> k = 4 \<or> k = 5 \<or> k = 6 \<or> k = 7 \<or> k = 8 \<or> k = 9"
    using assms by arith
  then show ?thesis
    by (elim disjE) (simp_all add: digit_char_def digit_value_def is_digit_def)
qed

lemma decimal_value_snoc: "decimal_value (s @ [c]) = 10 * decimal_value s + digit_value c"
  by (simp add: decimal_value_def)

lemma decimal_value_str_of_nat: "decimal_value (str_of_nat n) = n"
proof (induction n rule: str_of_nat.induct)
  case (1 n)
  show ?case
  proof (cases "n < 10")
    case True
    then show ?thesis
      using digit_char_cases [of n]
      by (simp add: str_of_nat.simps [of n] decimal_value_def)
  next
    case False
    then show ?thesis
      using "1.IH" digit_char_cases [of "n mod 10"]
      by (simp add: str_of_nat.simps [of n] decimal_value_snoc)
  qed
qed

lemma digits_str_of_nat: "list_all is_digit (str_of_nat n)"
proof (induction n rule: str_of_nat.induct)
  case (1 n)
  show ?case
  proof (cases "n < 10")
    case True
    then show ?thesis
      using digit_char_cases [of n] by (simp add: str_of_nat.simps [of n])
  next
    case False
    then show ?thesis
      using "1.IH" digit_char_cases [of "n mod 10"]
      by (simp add: str_of_nat.simps [of n])
  qed
qed

lemma hd_str_of_nat: "(hd (str_of_nat n) = CHR ''0'') = (n = 0)"
proof (induction n rule: str_of_nat.induct)
  case (1 n)
  show ?case
  proof (cases "n < 10")
    case True
    then show ?thesis
      using digit_char_cases [of n] by (simp add: str_of_nat.simps [of n])
  next
    case False
    then have "n div 10 \<noteq> 0"
      by simp
    then have "hd (str_of_nat (n div 10)) \<noteq> CHR ''0''"
      using "1.IH" False by simp
    then show ?thesis
      using False str_of_nat_nonempty [of "n div 10"]
      by (simp add: str_of_nat.simps [of n])
  qed
qed

section \<open>Sections given as a list\<close>

text \<open>
  Claim C4. For every list given to \<^verbatim>\<open>transform_sections\<close>, the result holds exactly the
  record elements, in input order; each keeps all its fields and gains
  \<^verbatim>\<open>section_id = "section_{index}"\<close> at the end only when it has no such key; every other
  element is dropped. The index is written as \<^verbatim>\<open>str\<close> writes it: a non-empty string of
  digits whose decimal value is the index, with a leading zero only for zero. The
  closed conjuncts are the specification's example, a list that mixes records with and
  without an id and other elements, and a record at position twelve.
\<close>

theorem transform_sections_list_form: "transform_sections (JList xs)
      = map list_section_spec (filter (\<lambda>p. is_record (snd p)) (enumerate 0 xs))
   \<and> transform_sections (JList [JDict [(''category'', JStr ''business''), (''content'', JStr ''...'')]])
      = [JDict [(''category'', JStr ''business''), (''content'', JStr ''...''),
                (''section_id'', JStr ''section_0'')]]
   \<and> transform_sections (JList [JDict [(''a'', JInt 1)], JInt 5,
                                JDict [(''section_id'', JStr ''x''), (''b'', JNone)], JDict [],
                                JStr ''noise'', JDict [(''c'', JBool True)]])
      = [JDict [(''a'', JInt 1), (''section_id'', JStr ''section_0'')],
         JDict [(''section_id'', JStr ''x''), (''b'', JNone)],
         JDict [(''section_id'', JStr ''section_3'')],
         JDict [(''c'', JBool True), (''section_id'', JStr ''section_5'')]]
   \<and> transform_sections (JList (replicate 12 JNone @ [JDict [(''t'', JStr ''late'')]]))
      = [JDict [(''t'', JStr ''late''), (''section_id'', JStr ''section_12'')]]
   \<and> str_of_nat idx \<noteq> [] \<and> list_all is_digit (str_of_nat idx)
   \<and> decimal_value (str_of_nat idx) = idx
   \<and> (hd (str_of_nat idx) = CHR ''0'') = (idx = 0)"
proof (intro conjI)
  show "transform_sections (JList xs)
      = map list_section_spec (filter (\<lambda>p. is_record (snd p)) (enumerate 0 xs))"
    by (rule transform_sections_list_eq)
  show "transform_sections (JList [JDict [(''category'', JStr ''business''), (''content'', JStr ''...'')]])
      = [JDict [(''category'', JStr ''business''), (''content'', JStr ''...''),
                (''section_id'', JStr ''section_0'')]]"
    by code_simp
  show "transform_sections (JList [JDict [(''a'', JInt 1)], JInt 5,
                                JDict [(''section_id'', JStr ''x''), (''b'', JNone)], JDict [],
                                JStr ''noise'', JDict [(''c'', JBool True)]])
      = [JDict [(''a'', JInt 1), (''section_id'', JStr ''section_0'')],
         JDict [(''section_id'', JStr ''x''), (''b'', JNone)],
         JDict [(''section_id'', JStr ''section_3'')],
         JDict [(''c'', JBool True), (''section_id'', JStr ''section_5'')]]"
    by code_simp
  show "transform_sections (JList (replicate 12 JNone @ [JDict [(''t'', JStr ''late'')]]))
      = [JDict [(''t'', JStr ''late''), (''section_id'', JStr ''section_12'')]]"
    by code_simp
  show "str_of_nat idx \<noteq> []"
    by (rule str_of_nat_nonempty)
  show "list_all is_digit (str_of_nat idx)"
    by (rule digits_str_of_nat)
  show "decimal_value (str_of_nat idx) = idx"
    by (rule decimal_value_str_of_nat)
  show "(hd (str_of_nat idx) = CHR ''0'') = (idx = 0)"
    by (rule hd_str_of_nat)
qed



section \<open>Sections and parts given as a mapping\<close>

text \<open>
  Claim C5. For every mapping given to \<^verbatim>\<open>transform_sections\<close>, the result has one section
  per entry, in the mapping's order. A record value is emitted with \<^verbatim>\<open>section_id\<close> set
  to the key: the id reads back as the key whatever the record held before, and its
  other fields are those of the record. A value that is not a record is emitted as
  \<^verbatim>\<open>{section_id: key, value: value}\<close>. The last two conjuncts are the specification's
  example and an entry whose own \<^verbatim>\<open>section_id\<close> is overwritten.
\<close>

theorem transform_sections_mapping_form:
  "transform_sections (JDict m) = map dict_section_spec m
   \<and> dict_get (the_record (dict_section_spec (key, JDict d))) ''section_id'' = JStr key
   \<and> dict_without ''section_id'' (the_record (dict_section_spec (key, JDict d)))
       = dict_without ''section_id'' d
   \<and> transform_sections (JDict [(''business'', JDict [(''content'', JStr ''...'')])])
       = [JDict [(''content'', JStr ''...''), (''section_id'', JStr ''business'')]]
   \<and> transform_sections (JDict [(''k'', JDict [(''section_id'', JStr ''old''), (''x'', JInt 1)]),
                                (''j'', JInt 5)])
       = [JDict [(''section_id'', JStr ''k''), (''x'', JInt 1)],
          JDict [(''section_id'', JStr ''j''), (''value'', JInt 5)]]"
proof (intro conjI)
  show "transform_sections (JDict m) = map dict_section_spec m"
    by (rule transform_sections_dict_eq)
  show "dict_get (the_record (dict_section_spec (key, JDict d))) ''section_id'' = JStr key"
    by (simp add: dict_section_spec_def)
  show "dict_without ''section_id'' (the_record (dict_section_spec (key, JDict d)))
       = dict_without ''section_id'' d"
    by (simp add: dict_section_spec_def dict_without_dict_set_same)
  show "transform_sections (JDict [(''business'', JDict [(''content'', JStr ''...'')])])
       = [JDict [(''content'', JStr ''...''), (''section_id'', JStr ''business'')]]"
    by code_simp
  show "transform_sections (JDict [(''k'', JDict [(''section_id'', JStr ''old''), (''x'', JInt 1)]),
                                (''j'', JInt 5)])
       = [JDict [(''section_id'', JStr ''k''), (''x'', JInt 1)],
          JDict [(''section_id'', JStr ''j''), (''value'', JInt 5)]]"
    by code_simp
qed

lemma filter_dict_set_other:
  "\<not> P (k, v) \<Longrightarrow> (\<And>w. \<not> P (k, w)) \<Longrightarrow> filter P (dict_set d k v) = filter P d"
  by (induction d) auto

text \<open>
  Claim C6. For every mapping given to \<^verbatim>\<open>transform_parts\<close>, the result has one part per
  entry, in order. For a record value the part's \<^verbatim>\<open>part_name\<close> is the record's own when
  present and truthy and the key otherwise, its \<^verbatim>\<open>sections\<close> is \<^verbatim>\<open>transform_sections\<close> of
  the record's \<^verbatim>\<open>sections\<close> field, and its entries under every other key are the
  record's, in the record's order. A value that is not a record gives
  \<^verbatim>\<open>{part_name: key, value: value, sections: []}\<close>. The closed conjuncts are the
  specification's example and a mapping whose records carry other fields, a falsy
  name, a name of their own, a mapping of sections and a list of sections.
\<close>

theorem transform_parts_mapping_form:
  "transform_parts (JDict m) = map dict_part_spec m
   \<and> dict_get (the_record (dict_part_spec (key, JDict d))) ''part_name''
       = (if has_key d ''part_name'' \<and> truthy (dict_get d ''part_name'')
          then dict_get d ''part_name'' else JStr key)
   \<and> dict_get (the_record (dict_part_spec (key, JDict d))) ''sections''
       = JList (transform_sections (dict_get d ''sections''))
   \<and> filter (\<lambda>kv. fst kv \<noteq> ''part_name'' \<and> fst kv \<noteq> ''sections'')
         (the_record (dict_part_spec (key, JDict d)))
       = filter (\<lambda>kv. fst kv \<noteq> ''part_name'' \<and> fst kv \<noteq> ''sections'') d
   \<and> transform_parts (JDict [(''Part_1'', JStr ''raw text'')])
       = [JDict [(''part_name'', JStr ''Part_1''), (''value'', JStr ''raw text''),
                 (''sections'', JList [])]]
   \<and> transform_parts (JDict
         [(''Part_1'', JDict [(''year'', JInt 2020),
                              (''sections'', JDict [(''business'', JDict [(''content'', JStr ''We make widgets.'')])]),
                              (''part_name'', JStr []), (''pages'', JList [JInt 1, JInt 2])]),
          (''Part_2'', JDict [(''part_name'', JStr ''Risk''), (''note'', JStr ''n'')]),
          (''Part_3'', JInt 7),
          (''Part_4'', JDict [(''sections'', JList [JDict [(''t'', JStr ''x'')], JNone]), (''z'', JNone)])])
       = [JDict [(''year'', JInt 2020), (''part_name'', JStr ''Part_1''),
                 (''pages'', JList [JInt 1, JInt 2]),
                 (''sections'', JList [JDict [(''content'', JStr ''We make widgets.''),
                                              (''section_id'', JStr ''business'')]])],
          JDict [(''part_name'', JStr ''Risk''), (''note'', JStr ''n''), (''sections'', JList [])],
          JDict [(''part_name'', JStr ''Part_3''), (''value'', JInt 7), (''sections'', JList [])],
          JDict [(''z'', JNone), (''part_name'', JStr ''Part_4''),
                 (''sections'', JList [JDict [(''t'', JStr ''x''), (''section_id'', JStr ''section_0'')]])]]"
proof (intro conjI)
  show "transform_parts (JDict m) = map dict_part_spec m"
    by (rule transform_parts_dict_eq)
  show "dict_get (the_record (dict_part_spec (key, JDict d))) ''part_name''
       = (if has_key d ''part_name'' \<and> truthy (dict_get d ''part_name'')
          then dict_get d ''part_name'' else JStr key)"
    by (simp add: dict_part_spec_def Let_def)
  show "dict_get (the_record (dict_part_spec (key, JDict d))) ''sections''
       = JList (transform_sections (dict_get d ''sections''))"
    by (simp add: dict_part_spec_def Let_def)
  show "filter (\<lambda>kv. fst kv \<noteq> ''part_name'' \<and> fst kv \<noteq> ''sections'')
         (the_record (dict_part_spec (key, JDict d)))
       = filter (\<lambda>kv. fst kv \<noteq> ''part_name'' \<and> fst kv \<noteq> ''sections'') d"
    by (simp add: dict_part_spec_def Let_def filter_dict_set_other dict_without_def conj_commute)
  show "transform_parts (JDict [(''Part_1'', JStr ''raw text'')])
       = [JDict [(''part_name'', JStr ''Part_1''), (''value'', JStr ''raw text''),
                 (''sections'', JList [])]]"
    by code_simp
  show "transform_parts (JDict
         [(''Part_1'', JDict [(''year'', JInt 2020),
                              (''sections'', JDict [(''business'', JDict [(''content'', JStr ''We make widgets.'')])]),
                              (''part_name'', JStr []), (''pages'', JList [JInt 1, JInt 2])]),
          (''Part_2'', JDict [(''part_name'', JStr ''Risk''), (''note'', JStr ''n'')]),
          (''Part_3'', JInt 7),
          (''Part_4'', JDict [(''sections'', JList [JDict [(''t'', JStr ''x'')], JNone]), (''z'', JNone)])])
       = [JDict [(''year'', JInt 2020), (''part_name'', JStr ''Part_1''),
                 (''pages'', JList [JInt 1, JInt 2]),
                 (''sections'', JList [JDict [(''content'', JStr ''We make widgets.''),
                                              (''section_id'', JStr ''business'')]])],
          JDict [(''part_name'', JStr ''Risk''), (''note'', JStr ''n''), (''sections'', JList [])],
          JDict [(''part_name'', JStr ''Part_3''), (''value'', JInt 7), (''sections'', JList [])],
          JDict [(''z'', JNone), (''part_name'', JStr ''Part_4''),
                 (''sections'', JList [JDict [(''t'', JStr ''x''), (''section_id'', JStr ''section_0'')]])]]"
    by code_simp
qed

section \<open>Batches\<close>

text \<open>
  Claim C8. A top-level list is mapped to the list of the normalised record elements,
  in their order, the other elements dropped; a top-level mapping is mapped to its
  normalised document, not wrapped in a list.
\<close>

theorem main_transform_batch:
  "main_transform (JList ds)
      = Inr (JList (map (\<lambda>d. JDict (transform_document (the_record d))) (filter is_record ds)))
   \<and> main_transform (JDict doc) = Inr (JDict (transform_document doc))
   \<and> main_transform (JList [JDict a, JInt 7, JDict b])
      = Inr (JList [JDict (transform_document a), JDict (transform_document b)])"
proof (intro conjI)
  have "List.map_filter (\<lambda>d. case d of JDict doc \<Rightarrow> Some (JDict (transform_document doc)) | _ \<Rightarrow> None) ds
      = map (\<lambda>d. JDict (transform_document (the_record d))) (filter is_record ds)"
    by (induction ds) (auto simp: List.map_filter_simps split: json.splits)
  then show "main_transform (JList ds)
      = Inr (JList (map (\<lambda>d. JDict (transform_document (the_record d))) (filter is_record ds)))"
    by (simp add: main_transform_def)
  show "main_transform (JDict doc) = Inr (JDict (transform_document doc))"
    by (simp add: main_transform_def)
  show "main_transform (JList [JDict a, JInt 7, JDict b])
      = Inr (JList [JDict (transform_document a), JDict (transform_document b)])"
    by (simp add: main_transform_def List.map_filter_simps)
qed

section \<open>Keys decide, not truthiness; names are tested for truthiness\<close>

lemma transform_parts_list_nth:
  assumes "i < length ps" and "ps ! i = JDict p"
  shows "transform_parts (JList ps) ! length (filter is_record (take i ps)) = list_part (JDict p)"
    and "length (filter is_record (take i ps)) < length (transform_parts (JList ps))"
proof -
  have rec: "is_record (ps ! i)"
    using assms(2) by simp
  note nth = filter_nth_position [of i ps is_record, OF assms(1) rec]
  show "length (filter is_record (take i ps)) < length (transform_parts (JList ps))"
    using nth(2) by (simp add: transform_parts_list_eq del: transform_parts.simps)
  show "transform_parts (JList ps) ! length (filter is_record (take i ps)) = list_part (JDict p)"
    using nth by (simp add: transform_parts_list_eq assms(2) del: transform_parts.simps)
qed

lemma list_part_falsy_name:
  assumes "\<not> truthy (dict_get p ''part_name'')"
  shows "dict_get (the_record (list_part (JDict p))) ''part_name'' = JStr ''Part''"
  using assms by (simp add: list_part_def Let_def py_or_def)

lemma dict_part_falsy_name:
  assumes "\<not> truthy (dict_get p ''part_name'')"
  shows "dict_get (the_record (dict_part_spec (key, JDict p))) ''part_name'' = JStr key"
  using assms by (simp add: dict_part_spec_def Let_def)

text \<open>
  Claim C10. In the list branch of \<^verbatim>\<open>transform_sections\<close> a record that has the key
  \<^verbatim>\<open>section_id\<close> is emitted unchanged, whatever the value under the key (\<^verbatim>\<open>None\<close> and
  the empty string included). In \<^verbatim>\<open>transform_parts\<close> a \<^verbatim>\<open>part_name\<close> that is falsy is
  replaced by the default: \<^verbatim>\<open>"Part"\<close> in the list branch, the key in the mapping branch.
\<close>

theorem section_id_by_presence_part_name_by_truth:
  "(i < length xs \<and> xs ! i = JDict d \<and> has_key d ''section_id'' \<longrightarrow>
      transform_sections (JList xs) ! length (filter is_record (take i xs)) = JDict d)
   \<and> (i < length ps \<and> ps ! i = JDict p \<and> \<not> truthy (dict_get p ''part_name'') \<longrightarrow>
      dict_get (the_record (transform_parts (JList ps) ! length (filter is_record (take i ps))))
        ''part_name'' = JStr ''Part'')
   \<and> (i < length m \<and> m ! i = (key, JDict p) \<and> \<not> truthy (dict_get p ''part_name'') \<longrightarrow>
      dict_get (the_record (transform_parts (JDict m) ! i)) ''part_name'' = JStr key)
   \<and> transform_sections (JList [JDict [(''section_id'', JNone)], JDict [(''section_id'', JStr [])]])
      = [JDict [(''section_id'', JNone)], JDict [(''section_id'', JStr [])]]
   \<and> transform_parts (JList [JDict [(''part_name'', JStr [])]])
      = [JDict [(''part_name'', JStr ''Part''), (''sections'', JList [])]]
   \<and> transform_parts (JDict [(''Part_1'', JDict [(''part_name'', JStr [])])])
      = [JDict [(''part_name'', JStr ''Part_1''), (''sections'', JList [])]]"
proof (intro conjI impI)
  assume h: "i < length xs \<and> xs ! i = JDict d \<and> has_key d ''section_id''"
  then have "transform_sections (JList xs) ! length (filter is_record (take i xs))
      = list_section_spec (i, JDict d)"
    using transform_sections_list_nth(1) by blast
  with h show "transform_sections (JList xs) ! length (filter is_record (take i xs)) = JDict d"
    by (simp add: list_section_spec_def)
next
  assume h: "i < length ps \<and> ps ! i = JDict p \<and> \<not> truthy (dict_get p ''part_name'')"
  then have "transform_parts (JList ps) ! length (filter is_record (take i ps)) = list_part (JDict p)"
    using transform_parts_list_nth(1) by blast
  with h show "dict_get (the_record (transform_parts (JList ps) ! length (filter is_record (take i ps))))
        ''part_name'' = JStr ''Part''"
    by (simp add: list_part_falsy_name)
next
  assume h: "i < length m \<and> m ! i = (key, JDict p) \<and> \<not> truthy (dict_get p ''part_name'')"
  then have "transform_parts (JDict m) ! i = dict_part_spec (key, JDict p)"
    by (simp add: transform_parts_dict_eq del: transform_parts.simps)
  with h show "dict_get (the_record (transform_parts (JDict m) ! i)) ''part_name'' = JStr key"
    by (simp add: dict_part_falsy_name)
next
  show "transform_sections (JList [JDict [(''section_id'', JNone)], JDict [(''section_id'', JStr [])]])
      = [JDict [(''section_id'', JNone)], JDict [(''section_id'', JStr [])]]"
    by code_simp
  show "transform_parts (JList [JDict [(''part_name'', JStr [])]])
      = [JDict [(''part_name'', JStr ''Part''), (''sections'', JList [])]]"
    by code_simp
  show "transform_parts (JDict [(''Part_1'', JDict [(''part_name'', JStr [])])])
      = [JDict [(''part_name'', JStr ''Part_1''), (''sections'', JList [])]]"
    by code_simp
qed

theorem section_id_by_presence_part_name_by_truth_witness:
  "transform_sections (JList [JInt 4, JDict [(''section_id'', JBool False), (''t'', JStr ''x'')]]) ! 0
      = JDict [(''section_id'', JBool False), (''t'', JStr ''x'')]
   \<and> dict_get (the_record (transform_parts (JList [JInt 4, JDict [(''part_name'', JInt 0)]]) ! 0))
        ''part_name'' = JStr ''Part''
   \<and> dict_get (the_record (transform_parts
        (JDict [(''A'', JInt 4), (''B'', JDict [(''part_name'', JNone)])]) ! 1)) ''part_name''
      = JStr ''B''"
proof -
  have a: "transform_sections (JList [JInt 4, JDict [(''section_id'', JBool False), (''t'', JStr ''x'')]]) ! 0
      = JDict [(''section_id'', JBool False), (''t'', JStr ''x'')]"
    using section_id_by_presence_part_name_by_truth [of 1 "[JInt 4, JDict [(''section_id'', JBool False), (''t'', JStr ''x'')]]"
        "[(''section_id'', JBool False), (''t'', JStr ''x'')]"]
    by (simp add: has_key_def del: transform_sections.simps transform_parts.simps)
  have b: "dict_get (the_record (transform_parts (JList [JInt 4, JDict [(''part_name'', JInt 0)]]) ! 0))
        ''part_name'' = JStr ''Part''"
    using section_id_by_presence_part_name_by_truth [of 1 _ _ "[JInt 4, JDict [(''part_name'', JInt 0)]]" "[(''part_name'', JInt 0)]"]
    by (simp add: dict_get_def del: transform_sections.simps transform_parts.simps)
  have c: "dict_get (the_record (transform_parts
        (JDict [(''A'', JInt 4), (''B'', JDict [(''part_name'', JNone)])]) ! 1)) ''part_name''
      = JStr ''B''"
    using section_id_by_presence_part_name_by_truth [of 1 _ _ _ "[(''part_name'', JNone)]"
         "[(''A'', JInt 4), (''B'', JDict [(''part_name'', JNone)])]" "''B''"]
    by (simp add: dict_get_def del: transform_sections.simps transform_parts.simps)
  from a b c show ?thesis by blast
qed

section \<open>Uniqueness of section ids\<close>

lemma digit_char_inj:
  assumes "a < 10" and "b < 10" and "digit_char a = digit_char b"
  shows "a = b"
proof -
  have "distinct ''0123456789''" by simp
  moreover have "a < length ''0123456789''" "b < length ''0123456789''"
    using assms by simp_all
  ultimately show ?thesis
    using assms(3) unfolding digit_char_def by (simp only: nth_eq_iff_index_eq)
qed

lemma str_of_nat_inj: "str_of_nat a = str_of_nat b \<Longrightarrow> a = b"
proof (induction a arbitrary: b rule: str_of_nat.induct)
  case (1 a)
  show ?case
  proof (cases "a < 10")
    case a: True
    show ?thesis
    proof (cases "b < 10")
      case True
      with a "1.prems" show ?thesis
        by (simp add: str_of_nat.simps [of a] str_of_nat.simps [of b] digit_char_inj)
    next
      case False
      with a "1.prems" show ?thesis
        using str_of_nat_nonempty [of "b div 10"]
        by (simp add: str_of_nat.simps [of a] str_of_nat.simps [of b])
    qed
  next
    case a: False
    show ?thesis
    proof (cases "b < 10")
      case True
      with a "1.prems" show ?thesis
        using str_of_nat_nonempty [of "a div 10"]
        by (simp add: str_of_nat.simps [of a] str_of_nat.simps [of b])
    next
      case False
      with a "1.prems" have eq: "str_of_nat (a div 10) = str_of_nat (b div 10)"
        and dg: "digit_char (a mod 10) = digit_char (b mod 10)"
        by (simp_all add: str_of_nat.simps [of a] str_of_nat.simps [of b])
      have "a div 10 = b div 10"
        using "1.IH" a eq by simp
      moreover have "a mod 10 = b mod 10"
        using dg by (intro digit_char_inj) simp_all
      ultimately show ?thesis
        by (metis div_mult_mod_eq)
    qed
  qed
qed

lemma section_id_of_dict_section: "section_id_of (dict_section_spec (key, v)) = JStr key"
  by (simp add: section_id_of_def dict_section_spec_def) (simp add: dict_get_def)

lemma section_id_of_derived:
  "\<not> has_key d ''section_id'' \<Longrightarrow>
   section_id_of (list_section_spec (i, JDict d)) = JStr (''section_'' @ str_of_nat i)"
  using dict_get_dict_set_same [of d "''section_id''"]
  by (simp add: section_id_of_def list_section_spec_def dict_set_absent [symmetric])

lemma section_ids_of_mapping:
  "map section_id_of (transform_sections (JDict m)) = map (\<lambda>kv. JStr (fst kv)) m"
  by (cases m) (auto simp: transform_sections_dict_eq section_id_of_dict_section
      simp del: transform_sections.simps)

text \<open>
  Claim C2 says that the ids of the sections of every normalised part are pairwise
  distinct, and that a derived id never collides with an id present in the source.
  The list branch keeps an id that is present as it is, so this fails: the document
  below has one part whose sections are \<^verbatim>\<open>[{"section_id": "section_1"}, {}]\<close>, and the
  second section is given the id \<^verbatim>\<open>section_1\<close> that the first one already has.
\<close>

theorem section_ids_collide:
  "document_parts (transform_document
      [(''parts'', JList [JDict [(''sections'',
          JList [JDict [(''section_id'', JStr ''section_1'')], JDict []])]])])
    = [JDict [(''sections'', JList [JDict [(''section_id'', JStr ''section_1'')],
                                     JDict [(''section_id'', JStr ''section_1'')]]),
              (''part_name'', JStr ''Part'')]]
   \<and> part_section_ids
        (JDict [(''sections'', JList [JDict [(''section_id'', JStr ''section_1'')],
                                     JDict [(''section_id'', JStr ''section_1'')]]),
              (''part_name'', JStr ''Part'')])
      = [JStr ''section_1'', JStr ''section_1'']
   \<and> \<not> distinct [JStr ''section_1'', JStr ''section_1'']"
  by code_simp

text \<open>
  Claim C2, amended. The ids of the sections made from a mapping are pairwise distinct
  (they are the mapping's keys, which a dict holds once each). In the sections made from
  a list, two ids that are both derived are distinct: the records at input positions
  \<open>i < j\<close> that have no \<^verbatim>\<open>section_id\<close> get different ids.
\<close>

theorem section_ids_distinct_when_derived:
  "(distinct (map fst m) \<longrightarrow> distinct (map section_id_of (transform_sections (JDict m))))
   \<and> (i < j \<and> j < length xs \<and> xs ! i = JDict a \<and> xs ! j = JDict b
       \<and> \<not> has_key a ''section_id'' \<and> \<not> has_key b ''section_id'' \<longrightarrow>
       section_id_of (transform_sections (JList xs) ! length (filter is_record (take i xs)))
       \<noteq> section_id_of (transform_sections (JList xs) ! length (filter is_record (take j xs))))"
proof (intro conjI impI)
  assume "distinct (map fst m)"
  then have "distinct (map (\<lambda>kv. JStr (fst kv)) m)"
    by (simp add: distinct_map inj_on_def)
  then show "distinct (map section_id_of (transform_sections (JDict m)))"
    by (simp only: section_ids_of_mapping)
next
  assume h: "i < j \<and> j < length xs \<and> xs ! i = JDict a \<and> xs ! j = JDict b
       \<and> \<not> has_key a ''section_id'' \<and> \<not> has_key b ''section_id''"
  then have i: "i < length xs" by simp
  have "transform_sections (JList xs) ! length (filter is_record (take i xs))
      = list_section_spec (i, JDict a)"
    using transform_sections_list_nth(1) i h by blast
  moreover have "transform_sections (JList xs) ! length (filter is_record (take j xs))
      = list_section_spec (j, JDict b)"
    using transform_sections_list_nth(1) h by blast
  moreover have "str_of_nat i \<noteq> str_of_nat j"
    using h str_of_nat_inj by blast
  ultimately show "section_id_of (transform_sections (JList xs) ! length (filter is_record (take i xs)))
       \<noteq> section_id_of (transform_sections (JList xs) ! length (filter is_record (take j xs)))"
    using h by (simp add: section_id_of_derived)
qed

theorem section_ids_distinct_when_derived_witness:
  "distinct (map section_id_of (transform_sections
      (JDict [(''business'', JDict [(''content'', JStr ''x'')]), (''risk'', JInt 3)])))
   \<and> section_id_of (transform_sections (JList [JDict [], JNone, JDict [(''a'', JInt 1)]]) ! 0)
     \<noteq> section_id_of (transform_sections (JList [JDict [], JNone, JDict [(''a'', JInt 1)]]) ! 1)"
  using section_ids_distinct_when_derived [of "[(''business'', JDict [(''content'', JStr ''x'')]), (''risk'', JInt 3)]"
      0 2 "[JDict [], JNone, JDict [(''a'', JInt 1)]]" "[]" "[(''a'', JInt 1)]"]
  by (simp add: has_key_def del: transform_sections.simps)

section \<open>Normalising twice\<close>

lemma wf_json_JDict_iff:
  "wf_json (JDict d) = (distinct (map fst d) \<and> (\<forall>kv \<in> set d. wf_json (snd kv)))"
  by (simp add: list_all_iff)

lemma wf_json_JList_iff: "wf_json (JList xs) = (\<forall>x \<in> set xs. wf_json x)"
  by (simp add: list_all_iff)

declare wf_json.simps(1,2) [simp del]
declare wf_json_JList_iff [simp] wf_json_JDict_iff [simp]

lemma py_eq_refl: "wf_json x \<Longrightarrow> py_eq x x"
proof (induction x)
  case (JList xs)
  then show ?case
    by (simp add: list_all2_same)
next
  case (JDict d)
  have "case map_of d (fst kv) of None \<Rightarrow> False | Some w \<Rightarrow> py_eq (snd kv) w"
    if kv: "kv \<in> set d" for kv
  proof -
    have "map_of d (fst kv) = Some (snd kv)"
      using JDict.prems kv by simp
    moreover have "py_eq (snd kv) (snd kv)"
      using JDict.IH [of kv "snd kv"] JDict.prems kv
      by (cases kv) auto
    ultimately show ?thesis by simp
  qed
  then show ?case
    by (simp add: list_all_iff)
qed (simp_all add: py_num_def)

lemma set_dict_set: "set (dict_set d k v) \<subseteq> insert (k, v) (set d)"
  by (induction d) (auto split: if_splits)

lemma wf_dict_set:
  assumes "wf_json (JDict d)" and "wf_json v"
  shows "wf_json (JDict (dict_set d k v))"
proof -
  have "distinct (map fst (dict_set d k v))"
    using assms(1) by (simp add: map_fst_dict_set has_key_def)
  moreover have "\<forall>kv \<in> set (dict_set d k v). wf_json (snd kv)"
    using assms set_dict_set [of d k v] by auto
  ultimately show ?thesis
    by simp
qed

lemma wf_dict_without: "wf_json (JDict d) \<Longrightarrow> wf_json (JDict (dict_without k d))"
  by (simp add: dict_without_def distinct_map_filter)

lemma wf_dict_get: "wf_json (JDict d) \<Longrightarrow> wf_json (dict_get d k)"
  by (auto simp: dict_get_def split: option.splits dest!: map_of_SomeD)

lemma wf_list_section_spec:
  "wf_json (snd p) \<Longrightarrow> is_record (snd p) \<Longrightarrow> wf_json (list_section_spec p)"
proof -
  assume wf: "wf_json (snd p)" and "is_record (snd p)"
  then obtain i d where p: "p = (i, JDict d)"
    by (cases p, cases "snd p") (simp_all add: is_record_def)
  show ?thesis
  proof (cases "has_key d ''section_id''")
    case True
    then show ?thesis using wf by (simp add: p list_section_spec_def)
  next
    case False
    have "wf_json (JDict (dict_set d ''section_id'' (JStr (''section_'' @ str_of_nat i))))"
      using wf p by (intro wf_dict_set) simp_all
    then show ?thesis
      using False by (simp add: p list_section_spec_def dict_set_absent)
  qed
qed

lemma wf_dict_section_spec: "wf_json (snd p) \<Longrightarrow> wf_json (dict_section_spec p)"
proof -
  assume wf: "wf_json (snd p)"
  obtain key v where p: "p = (key, v)" by (cases p)
  show ?thesis
  proof (cases "is_record v")
    case True
    then obtain d where v: "v = JDict d"
      by (cases v) simp_all
    have "wf_json (JDict (dict_set d ''section_id'' (JStr key)))"
      using wf p v by (intro wf_dict_set) simp_all
    then show ?thesis
      by (simp add: p v dict_section_spec_def)
  next
    case False
    then show ?thesis
      using wf by (simp add: p dict_section_spec_def)
  qed
qed

lemma set_enumerate_snd: "(i, v) \<in> set (enumerate n xs) \<Longrightarrow> v \<in> set xs"
  by (auto simp: enumerate_eq_zip dest: set_zip_rightD)

lemma wf_transform_sections: "wf_json x \<Longrightarrow> wf_json (JList (transform_sections x))"
proof (cases x)
  case (JList xs)
  assume "wf_json x"
  then have "\<forall>p \<in> set (enumerate 0 xs). wf_json (snd p)"
    using JList by (auto dest: set_enumerate_snd)
  then show ?thesis
    by (auto simp: JList transform_sections_list_eq wf_list_section_spec
        simp del: transform_sections.simps)
next
  case (JDict m)
  assume "wf_json x"
  then show ?thesis
    by (auto simp: JDict transform_sections_dict_eq wf_dict_section_spec simp del: transform_sections.simps)
qed simp_all

lemma section_ok_list_section_spec: "is_record (snd p) \<Longrightarrow> section_ok (list_section_spec p)"
  by (cases p, cases "snd p")
     (auto simp: section_ok_def list_section_spec_def has_key_def)

lemma section_ok_dict_section_spec: "section_ok (dict_section_spec p)"
  by (cases p) (auto simp: section_ok_def dict_section_spec_def, simp add: has_key_def)

lemma transform_sections_all_ok: "list_all section_ok (transform_sections x)"
proof (cases x)
  case (JList xs)
  then show ?thesis
    by (simp add: transform_sections_list_eq list_all_iff section_ok_list_section_spec
        del: transform_sections.simps)
next
  case (JDict m)
  then show ?thesis
    by (simp add: transform_sections_dict_eq list_all_iff section_ok_dict_section_spec
        del: transform_sections.simps)
qed simp_all

lemma list_section_spec_ok: "section_ok s \<Longrightarrow> list_section_spec (i, s) = s"
  by (cases s) (simp_all add: section_ok_def list_section_spec_def)

lemma map_filter_enumerate_ok:
  "list_all section_ok xs \<Longrightarrow>
   map list_section_spec (filter (\<lambda>p. is_record (snd p)) (enumerate n xs)) = xs"
  by (induction xs arbitrary: n) (auto simp: list_section_spec_ok section_ok_def)

lemma transform_sections_fixpoint:
  "list_all section_ok xs \<Longrightarrow> transform_sections (JList xs) = xs"
  by (simp add: transform_sections_list_eq map_filter_enumerate_ok del: transform_sections.simps)

lemma wf_dict_part_spec: "wf_json (snd p) \<Longrightarrow> wf_json (dict_part_spec p)"
proof -
  assume wf: "wf_json (snd p)"
  obtain key v where p: "p = (key, v)" by (cases p)
  show ?thesis
  proof (cases "is_record v")
    case True
    then obtain d where v: "v = JDict d"
      by (cases v) simp_all
    let ?name = "if has_key d ''part_name'' \<and> truthy (dict_get d ''part_name'')
                 then dict_get d ''part_name'' else JStr key"
    have d: "wf_json (JDict d)"
      using wf p v by simp
    have name: "wf_json ?name"
      using wf_dict_get [OF d] by simp
    have "wf_json (JDict (dict_set (dict_without ''sections'' d) ''part_name'' ?name))"
      by (rule wf_dict_set [OF wf_dict_without [OF d] name])
    then have "wf_json (JDict (dict_set (dict_set (dict_without ''sections'' d) ''part_name'' ?name)
        ''sections'' (JList (transform_sections (dict_get d ''sections'')))))"
      by (rule wf_dict_set [OF _ wf_transform_sections [OF wf_dict_get [OF d]]])
    then show ?thesis
      by (simp add: p v dict_part_spec_def Let_def)
  next
    case False
    then show ?thesis
      using wf by (simp add: p dict_part_spec_def)
  qed
qed

lemma wf_list_part: "wf_json part \<Longrightarrow> is_record part \<Longrightarrow> wf_json (list_part part)"
proof -
  assume wf: "wf_json part" and "is_record part"
  then obtain p where part: "part = JDict p"
    by (cases part) simp_all
  let ?base = "dict_set (dict_without ''sections'' p) ''sections''
                   (JList (transform_sections (dict_get p ''sections'')))"
  have p: "wf_json (JDict p)"
    using wf part by simp
  have base: "wf_json (JDict ?base)"
    by (rule wf_dict_set [OF wf_dict_without [OF p] wf_transform_sections [OF wf_dict_get [OF p]]])
  have "wf_json (py_or (dict_get p ''part_name'') (JStr ''Part''))"
    using wf_dict_get [OF p] by (simp add: py_or_def)
  then have "wf_json (JDict (dict_set ?base ''part_name''
      (py_or (dict_get p ''part_name'') (JStr ''Part''))))"
    by (rule wf_dict_set [OF base])
  with base show ?thesis
    by (simp add: part list_part_def Let_def)
qed

lemma wf_transform_parts: "wf_json x \<Longrightarrow> wf_json (JList (transform_parts x))"
proof (cases x)
  case (JList xs)
  assume "wf_json x"
  then show ?thesis
    by (auto simp: JList transform_parts_list_eq wf_list_part simp del: transform_parts.simps)
next
  case (JDict m)
  assume "wf_json x"
  then show ?thesis
    by (auto simp: JDict transform_parts_dict_eq wf_dict_part_spec simp del: transform_parts.simps)
qed simp_all

lemma map_of_dict_set_same: "map_of (dict_set d k v) k = Some v"
  by (induction d) auto

lemma normal_list_part: "is_record part \<Longrightarrow> normal_part (list_part part)"
proof -
  assume "is_record part"
  then obtain p where part: "part = JDict p"
    by (cases part) simp_all
  let ?secs = "transform_sections (dict_get p ''sections'')"
  let ?base = "dict_set (dict_without ''sections'' p) ''sections'' (JList ?secs)"
  show ?thesis
  proof (cases "truthy (dict_get ?base ''part_name'')")
    case True
    then have "list_part part = JDict ?base"
      by (simp add: part list_part_def Let_def)
    with True show ?thesis
      by (simp add: normal_part_def map_of_dict_set_same transform_sections_all_ok)
  next
    case False
    then have lp: "list_part part
        = JDict (dict_set ?base ''part_name'' (py_or (dict_get p ''part_name'') (JStr ''Part'')))"
      by (simp add: part list_part_def Let_def)
    have "truthy (py_or (dict_get p ''part_name'') (JStr ''Part''))"
      by (simp add: py_or_def)
    then show ?thesis
      by (simp add: lp normal_part_def map_of_dict_set_same map_of_dict_set_other
          transform_sections_all_ok)
  qed
qed

lemma normal_dict_part: "named_entry p \<Longrightarrow> normal_part (dict_part_spec p)"
proof -
  assume named: "named_entry p"
  obtain key v where p: "p = (key, v)" by (cases p)
  show ?thesis
  proof (cases "is_record v")
    case True
    then obtain d where v: "v = JDict d"
      by (cases v) simp_all
    have "truthy (if has_key d ''part_name'' \<and> truthy (dict_get d ''part_name'')
                  then dict_get d ''part_name'' else JStr key)"
      using named by (auto simp: named_entry_def p v dict_get_absent)
    then show ?thesis
      by (simp add: p v dict_part_spec_def Let_def normal_part_def map_of_dict_set_same
          transform_sections_all_ok)
  next
    case False
    then have "key \<noteq> []"
      using named by (simp add: named_entry_def p)
    with False show ?thesis
      by (simp add: p dict_part_spec_def normal_part_def dict_get_def)
  qed
qed

lemma length_dict_without:
  "distinct (map fst q) \<Longrightarrow> map_of q k = Some v \<Longrightarrow> Suc (length (dict_without k q)) = length q"
proof (induction q)
  case Nil
  then show ?case by simp
next
  case (Cons a q)
  show ?case
  proof (cases "fst a = k")
    case True
    then have "k \<notin> fst ` set q"
      using Cons.prems(1) by auto
    then have "dict_without k q = q"
      by (auto simp: dict_without_def intro!: filter_True)
    with True show ?thesis
      by (simp add: dict_without_def)
  next
    case False
    then have "map_of q k = Some v"
      using Cons.prems(2) by (cases a) (simp split: if_splits)
    with Cons False show ?thesis
      by (simp add: dict_without_def)
  qed
qed

lemma py_eq_dict_move_last:
  assumes wf: "wf_json (JDict q)" and k: "map_of q k = Some v" and eq: "py_eq v2 v"
  shows "py_eq (JDict (dict_without k q @ [(k, v2)])) (JDict q)"
proof -
  have len: "length (dict_without k q @ [(k, v2)]) = length q"
    using length_dict_without [of q k v] wf k by simp
  have ok: "\<exists>w. map_of q (fst kv) = Some w \<and> py_eq (snd kv) w"
    if "kv \<in> set (dict_without k q @ [(k, v2)])" for kv
  proof (cases "kv \<in> set (dict_without k q)")
    case True
    then have kv: "kv \<in> set q"
      by (simp add: dict_without_def)
    then have "map_of q (fst kv) = Some (snd kv)"
      using wf by simp
    moreover have "py_eq (snd kv) (snd kv)"
      using wf kv by (intro py_eq_refl) simp
    ultimately show ?thesis by simp
  next
    case False
    then have "kv = (k, v2)"
      using that by simp
    then show ?thesis
      using k eq by simp
  qed
  have "case map_of q (fst kv) of None \<Rightarrow> False | Some w \<Rightarrow> py_eq (snd kv) w"
    if "kv \<in> set (dict_without k q @ [(k, v2)])" for kv
    using ok [OF that] by (auto split: option.splits)
  then show ?thesis
    using len unfolding py_eq.simps json.case list_all_iff by blast
qed

lemma py_eq_list_part:
  assumes wf: "wf_json part" and normal: "normal_part part"
  shows "py_eq (list_part part) part"
proof -
  obtain q where part: "part = JDict q"
    using normal by (cases part) (simp_all add: normal_part_def)
  obtain secs where secs: "map_of q ''sections'' = Some (JList secs)"
    and ok: "list_all section_ok secs"
    using normal by (auto simp: normal_part_def part split: option.splits json.splits)
  have name: "truthy (dict_get q ''part_name'')"
    using normal by (simp add: normal_part_def part)
  have get: "dict_get q ''sections'' = JList secs"
    using secs by (simp add: dict_get_def)
  have "list_part (JDict q)
      = JDict (dict_set (dict_without ''sections'' q) ''sections'' (JList secs))"
    using name by (simp add: list_part_def Let_def get transform_sections_fixpoint [OF ok]
        del: transform_sections.simps)
  also have "\<dots> = JDict (dict_without ''sections'' q @ [(''sections'', JList secs)])"
    by (simp add: dict_set_absent)
  finally have lp: "list_part (JDict q)
      = JDict (dict_without ''sections'' q @ [(''sections'', JList secs)])" .
  have wfq: "wf_json (JDict q)"
    using wf by (simp add: part)
  have "wf_json (JList secs)"
    using wfq secs by (auto dest!: map_of_SomeD)
  then have "py_eq (JList secs) (JList secs)"
    by (rule py_eq_refl)
  then have "py_eq (JDict (dict_without ''sections'' q @ [(''sections'', JList secs)])) (JDict q)"
    by (rule py_eq_dict_move_last [OF wfq secs])
  then show ?thesis
    by (simp only: part lp)
qed

lemma py_eq_transform_parts_again:
  assumes wf: "list_all wf_json ps" and normal: "list_all normal_part ps"
  shows "py_eq (JList (transform_parts (JList ps))) (JList ps)"
proof -
  have rec: "filter is_record ps = ps"
    using normal by (auto simp: list_all_iff normal_part_def intro!: filter_True)
  have "list_all2 py_eq (map list_part ps) ps"
    using wf normal by (auto simp: list_all2_map1 list_all_iff py_eq_list_part intro!: list_all2_same [THEN iffD2])
  then show ?thesis
    by (simp add: transform_parts_list_eq rec del: transform_parts.simps)
qed

lemma normal_transform_parts:
  assumes "case x of JDict m \<Rightarrow> list_all named_entry m | _ \<Rightarrow> True"
  shows "list_all normal_part (transform_parts x)"
proof (cases x)
  case (JList xs)
  then show ?thesis
    by (simp add: transform_parts_list_eq list_all_iff normal_list_part del: transform_parts.simps)
next
  case (JDict m)
  then show ?thesis
    using assms
    by (simp add: transform_parts_dict_eq list_all_iff normal_dict_part del: transform_parts.simps)
qed simp_all

lemma transform_document_eq:
  "transform_document doc
     = dict_without ''parts'' doc @ [(''parts'', JList (transform_parts (dict_get doc ''parts'')))]"
  by (simp add: transform_document_def Let_def dict_set_absent)

text \<open>
  Claim C1 says that \<^verbatim>\<open>transform_document\<close> applied twice equals it applied once, for
  every mapping document. It fails when \<^verbatim>\<open>parts\<close> is a mapping with the empty string as
  a key: the mapping branch names the part \<^verbatim>\<open>value.get("part_name") or key\<close>, which is
  the empty string here, and the list branch of the second pass replaces that falsy
  name by \<^verbatim>\<open>"Part"\<close>.
\<close>

theorem transform_document_twice_differs:
  "transform_document [(''parts'', JDict [([], JDict [])])]
     = [(''parts'', JList [JDict [(''part_name'', JStr []), (''sections'', JList [])]])]
   \<and> transform_document (transform_document [(''parts'', JDict [([], JDict [])])])
     = [(''parts'', JList [JDict [(''part_name'', JStr ''Part''), (''sections'', JList [])]])]
   \<and> \<not> py_eq (JDict (transform_document (transform_document [(''parts'', JDict [([], JDict [])])])))
             (JDict (transform_document [(''parts'', JDict [([], JDict [])])]))"
  by code_simp

text \<open>
  Claim C1, amended. For every document (a dict, so without duplicate keys at any
  level) whose \<^verbatim>\<open>parts\<close>, when it is a mapping, has no entry with the empty key other
  than a record with a truthy \<^verbatim>\<open>part_name\<close>, the second pass returns a document equal
  to the first pass's under Python's \<^verbatim>\<open>==\<close>. The equality is that of dicts, blind to
  key order: the witness below is a document on which the second pass moves
  \<^verbatim>\<open>sections\<close> behind \<^verbatim>\<open>part_name\<close>, so the two results differ as ordered lists of
  entries.
\<close>

theorem transform_document_idempotent:
  assumes wf: "wf_json (JDict doc)" and named: "parts_named doc"
  shows "py_eq (JDict (transform_document (transform_document doc))) (JDict (transform_document doc))"
proof -
  let ?ps = "transform_parts (dict_get doc ''parts'')"
  let ?D = "transform_document doc"
  have D: "?D = dict_without ''parts'' doc @ [(''parts'', JList ?ps)]"
    by (rule transform_document_eq)
  have wf_ps: "wf_json (JList ?ps)"
    by (rule wf_transform_parts [OF wf_dict_get [OF wf]])
  have wf_D: "wf_json (JDict ?D)"
    unfolding transform_document_def Let_def
    by (rule wf_dict_set [OF wf_dict_without [OF wf] wf_ps])
  have get: "map_of ?D ''parts'' = Some (JList ?ps)"
    by (simp add: transform_document_def Let_def map_of_dict_set_same)
  have without: "dict_without ''parts'' ?D = dict_without ''parts'' doc"
    by (simp add: transform_document_def Let_def dict_without_dict_set_same dict_without_twice)
  have normal: "list_all normal_part ?ps"
    using named by (intro normal_transform_parts) (simp add: parts_named_def)
  have again: "py_eq (JList (transform_parts (JList ?ps))) (JList ?ps)"
    using wf_ps normal by (intro py_eq_transform_parts_again) (simp_all add: list_all_iff)
  have "transform_document ?D
      = dict_without ''parts'' ?D @ [(''parts'', JList (transform_parts (dict_get ?D ''parts'')))]"
    by (rule transform_document_eq)
  also have "dict_get ?D ''parts'' = JList ?ps"
    using get by (simp add: dict_get_def)
  finally have "transform_document ?D
      = dict_without ''parts'' ?D @ [(''parts'', JList (transform_parts (JList ?ps)))]" .
  then show ?thesis
    using py_eq_dict_move_last [OF wf_D get again] by simp
qed

theorem transform_document_idempotent_witness:
  "wf_json (JDict [(''company'', JStr ''Acme''), (''parts'', JList [JDict [(''a'', JInt 1)]])])
   \<and> parts_named [(''company'', JStr ''Acme''), (''parts'', JList [JDict [(''a'', JInt 1)]])]
   \<and> py_eq (JDict (transform_document (transform_document
          [(''company'', JStr ''Acme''), (''parts'', JList [JDict [(''a'', JInt 1)]])])))
        (JDict (transform_document
          [(''company'', JStr ''Acme''), (''parts'', JList [JDict [(''a'', JInt 1)]])]))
   \<and> transform_document (transform_document
          [(''company'', JStr ''Acme''), (''parts'', JList [JDict [(''a'', JInt 1)]])])
     \<noteq> transform_document
          [(''company'', JStr ''Acme''), (''parts'', JList [JDict [(''a'', JInt 1)]])]"
proof -
  let ?d = "[(''company'', JStr ''Acme''), (''parts'', JList [JDict [(''a'', JInt 1)]])]"
  have wf: "wf_json (JDict ?d)"
    by simp
  have named: "parts_named ?d"
    by (simp add: parts_named_def dict_get_def)
  have "transform_document (transform_document ?d) \<noteq> transform_document ?d"
    by code_simp
  then show ?thesis
    using wf named transform_document_idempotent [OF wf named] by blast
qed

section \<open>The code on the heap computes the functions on values\<close>

text \<open>
  Each function, run on a value that represents a JSON value, raises nothing, leaves
  every object that existed before as it was, and returns a reference that represents
  the result of the function on values.
\<close>

lemma repr_mono:
  assumes "repr c v j" and "c \<subseteq>\<^sub>m c'"
  shows "repr c' v j"
  using assms
proof (induction rule: repr.induct)
  case (repr_List a vs js)
  have "c' a = Some (OList vs)"
    using repr_List.hyps(1) repr_List.prems by (auto simp: map_le_def dom_def)
  moreover have "list_all2 (repr c') vs js"
    using repr_List.IH repr_List.prems by (auto elim!: list_all2_mono)
  ultimately show ?case
    by (rule repr.repr_List)
next
  case (repr_Dict a kvs d)
  have "c' a = Some (ODict kvs)"
    using repr_Dict.hyps(1) repr_Dict.prems by (auto simp: map_le_def dom_def)
  moreover have "list_all2 (\<lambda>kv e. fst kv = fst e \<and> repr c' (snd kv) (snd e)) kvs d"
    using repr_Dict.IH repr_Dict.prems by (auto elim!: list_all2_mono)
  ultimately show ?case
    by (rule repr.repr_Dict)
qed (auto intro: repr.intros)

lemma cells_except_mono:
  assumes "upd_only B h h'" and "B \<subseteq> A"
  shows "cells_except A h \<subseteq>\<^sub>m cells_except A h'"
  using assms by (auto simp: map_le_def cells_except_def upd_only_def dom_def split: if_splits)

lemma repr_upd_only:
  "repr (cells_except A h) v j \<Longrightarrow> upd_only B h h' \<Longrightarrow> B \<subseteq> A \<Longrightarrow> repr (cells_except A h') v j"
  by (erule repr_mono) (rule cells_except_mono)

lemma upd_only_refl: "upd_only B h h"
  by (simp add: upd_only_def)

lemma upd_only_trans:
  "upd_only B h h1 \<Longrightarrow> upd_only C h1 h2 \<Longrightarrow> (\<forall>c \<in> C. c < length h \<longrightarrow> c \<in> B) \<Longrightarrow> upd_only B h h2"
  by (auto simp: upd_only_def)

lemma upd_only_weaken: "upd_only B h h' \<Longrightarrow> B \<subseteq> C \<Longrightarrow> upd_only C h h'"
  by (auto simp: upd_only_def)

lemma upd_only_alloc: "upd_only B h (h @ [ob])"
  by (simp add: upd_only_def nth_append)

lemma upd_only_store: "upd_only {a} h (h[a := ob])"
  by (simp add: upd_only_def)


lemma andthen_simps [simp]:
  "andthen (Inr x) f = f x" "andthen (Inl e) f = Inl e"
  by (simp_all add: andthen_def)

lemma lookup_ref: "lookup h (VRef a) = (if a < length h then Some (h ! a) else None)"
  by (simp add: lookup_def)

lemma get_h_dict:
  "a < length h \<Longrightarrow> h ! a = ODict kvs \<Longrightarrow> get_h h (VRef a) k = Inr (entries_get kvs k)"
  by (simp add: get_h_def lookup_ref)

lemma contains_h_dict:
  "a < length h \<Longrightarrow> h ! a = ODict kvs \<Longrightarrow> contains_h h k (VRef a) = Inr (has_key kvs k)"
  by (simp add: contains_h_def lookup_ref)

lemma dict_items_dict:
  "a < length h \<Longrightarrow> h ! a = ODict kvs \<Longrightarrow> dict_items h (VRef a) = Inr kvs"
  by (simp add: dict_items_def lookup_ref)

lemma list_items_list:
  "a < length h \<Longrightarrow> h ! a = OList vs \<Longrightarrow> list_items h (VRef a) = Inr vs"
  by (simp add: list_items_def lookup_ref)

lemma setitem_h_dict:
  "a < length h \<Longrightarrow> h ! a = ODict kvs \<Longrightarrow>
   setitem_h (VRef a) k v h = Inr (h[a := ODict (dict_set kvs k v)])"
  by (simp add: setitem_h_def lookup_ref store_def)

lemma append_h_list:
  "a < length h \<Longrightarrow> h ! a = OList vs \<Longrightarrow> append_h (VRef a) v h = Inr (h[a := OList (vs @ [v])])"
  by (simp add: append_h_def lookup_ref store_def)

lemma display_h_dict:
  "a < length h \<Longrightarrow> h ! a = ODict kvs \<Longrightarrow>
   display_h (VRef a) k v h = Inr (VRef (length h), h @ [ODict (dict_set kvs k v)])"
  by (simp add: display_h_def lookup_ref alloc_def)

lemma without_h_dict:
  "a < length h \<Longrightarrow> h ! a = ODict kvs \<Longrightarrow>
   without_h name (VRef a) h = Inr (VRef (length h), h @ [ODict (dict_without name kvs)])"
  by (simp add: without_h_def dict_items_dict alloc_def)

lemma isinstance_dict_ref:
  "isinstance_dict h (VRef a) = (a < length h \<and> (\<exists>kvs. h ! a = ODict kvs))"
  by (auto simp: isinstance_dict_def lookup_ref split: obj.splits)

lemma isinstance_list_ref:
  "isinstance_list h (VRef a) = (a < length h \<and> (\<exists>vs. h ! a = OList vs))"
  by (auto simp: isinstance_list_def lookup_ref split: obj.splits)

lemma isinstance_nonref [simp]:
  "\<not> isinstance_dict h VNone" "\<not> isinstance_dict h (VBool b)" "\<not> isinstance_dict h (VInt i)"
  "\<not> isinstance_dict h (VFloat r)" "\<not> isinstance_dict h (VStr s)"
  "\<not> isinstance_list h VNone" "\<not> isinstance_list h (VBool b)" "\<not> isinstance_list h (VInt i)"
  "\<not> isinstance_list h (VFloat r)" "\<not> isinstance_list h (VStr s)"
  by (simp_all add: isinstance_dict_def isinstance_list_def lookup_def)

lemma repr_JDict_D:
  assumes "repr (cells_except A h) v (JDict d)"
  obtains a kvs where "v = VRef a" "a < length h" "a \<notin> A" "h ! a = ODict kvs"
    "entries_rel (cells_except A h) kvs d"
  using assms
  by (cases rule: repr.cases) (auto simp: cells_except_def entries_rel_def split: if_splits)

lemma repr_JList_D:
  assumes "repr (cells_except A h) v (JList js)"
  obtains a vs where "v = VRef a" "a < length h" "a \<notin> A" "h ! a = OList vs"
    "list_all2 (repr (cells_except A h)) vs js"
  using assms
  by (cases rule: repr.cases) (auto simp: cells_except_def split: if_splits)

lemma repr_isinstance_dict:
  "repr (cells_except A h) v j \<Longrightarrow> isinstance_dict h v = is_record j"
  by (erule repr.cases)
     (auto simp: isinstance_dict_ref cells_except_def split: if_splits)

lemma repr_isinstance_list:
  "repr (cells_except A h) v j \<Longrightarrow> isinstance_list h v = (\<exists>js. j = JList js)"
  by (erule repr.cases)
     (auto simp: isinstance_list_ref cells_except_def split: if_splits)

lemma repr_truthy: "repr (cells_except A h) v j \<Longrightarrow> truthy_h h v = truthy j"
  by (erule repr.cases)
     (auto simp: truthy_h_def lookup_ref cells_except_def entries_rel_def split: if_splits)

lemma entries_rel_get:
  "entries_rel c kvs d \<Longrightarrow> repr c (entries_get kvs k) (dict_get d k)"
  unfolding entries_rel_def
  by (induction rule: list_all2_induct)
     (auto simp: entries_get_def dict_get_def intro: repr.intros)

lemma entries_rel_keys: "entries_rel c kvs d \<Longrightarrow> map fst kvs = map fst d"
  unfolding entries_rel_def
  by (induction rule: list_all2_induct) auto

lemma entries_rel_has_key: "entries_rel c kvs d \<Longrightarrow> has_key kvs k = has_key d k"
  by (simp add: has_key_def entries_rel_keys)

lemma entries_rel_set:
  "entries_rel c kvs d \<Longrightarrow> repr c v j \<Longrightarrow> entries_rel c (dict_set kvs k v) (dict_set d k j)"
  unfolding entries_rel_def
  by (induction rule: list_all2_induct) auto

lemma entries_rel_without:
  "entries_rel c kvs d \<Longrightarrow> entries_rel c (dict_without name kvs) (dict_without name d)"
  unfolding entries_rel_def dict_without_def
  by (induction rule: list_all2_induct) auto

lemma entries_rel_mono: "entries_rel c kvs d \<Longrightarrow> c \<subseteq>\<^sub>m c' \<Longrightarrow> entries_rel c' kvs d"
  unfolding entries_rel_def
  by (erule list_all2_mono) (auto intro: repr_mono)

lemma entries_rel_upd_only:
  "entries_rel (cells_except A h) kvs d \<Longrightarrow> upd_only B h h' \<Longrightarrow> B \<subseteq> A \<Longrightarrow>
   entries_rel (cells_except A h') kvs d"
  by (erule entries_rel_mono) (rule cells_except_mono)

lemma reprs_upd_only:
  "list_all2 (repr (cells_except A h)) vs js \<Longrightarrow> upd_only B h h' \<Longrightarrow> B \<subseteq> A \<Longrightarrow>
   list_all2 (repr (cells_except A h')) vs js"
  by (erule list_all2_mono) (rule repr_upd_only)

lemma repr_dict_at:
  "a < length h \<Longrightarrow> a \<notin> A \<Longrightarrow> h ! a = ODict kvs \<Longrightarrow> entries_rel (cells_except A h) kvs d \<Longrightarrow>
   repr (cells_except A h) (VRef a) (JDict d)"
  by (rule repr.repr_Dict [where kvs = kvs]) (simp_all add: cells_except_def entries_rel_def)

lemma repr_list_at:
  "a < length h \<Longrightarrow> a \<notin> A \<Longrightarrow> h ! a = OList vs \<Longrightarrow> list_all2 (repr (cells_except A h)) vs js \<Longrightarrow>
   repr (cells_except A h) (VRef a) (JList js)"
  by (rule repr.repr_List [where vs = vs]) (simp_all add: cells_except_def)

lemma cells_except_subset: "A \<subseteq> B \<Longrightarrow> cells_except B h \<subseteq>\<^sub>m cells_except A h"
  by (auto simp: map_le_def cells_except_def dom_def split: if_splits)

lemma for_each_appends:
  assumes items: "list_all2 R xs ys"
    and nA: "n \<in> A"
    and body: "\<And>x y g outs. R x y \<Longrightarrow> upd_only {n} g0 g \<Longrightarrow> g ! n = OList outs \<Longrightarrow>
        \<exists>g' r. body x g = Inr g' \<and> upd_only {n} g g' \<and> g' ! n = OList (outs @ r) \<and>
               list_all2 (repr (cells_except A g')) r (step y)"
    and g: "upd_only {n} g0 g" "g ! n = OList outs" "list_all2 (repr (cells_except A g)) outs rs"
  shows "\<exists>g' outs'. for_each body xs g = Inr g' \<and> upd_only {n} g0 g' \<and> g' ! n = OList outs' \<and>
           list_all2 (repr (cells_except A g')) outs' (rs @ concat (map step ys))"
  using items g
proof (induction arbitrary: g outs rs rule: list_all2_induct)
  case Nil
  then show ?case by auto
next
  case (Cons x xs y ys)
  obtain g1 r where g1: "body x g = Inr g1" "upd_only {n} g g1" "g1 ! n = OList (outs @ r)"
    "list_all2 (repr (cells_except A g1)) r (step y)"
    using body [OF Cons.hyps(1) Cons.prems(1,2)] by blast
  have up: "upd_only {n} g0 g1"
    using Cons.prems(1) g1(2) by (rule upd_only_trans) simp
  have "list_all2 (repr (cells_except A g1)) outs rs"
    using Cons.prems(3) g1(2) by (rule reprs_upd_only) (simp add: nA)
  then have "list_all2 (repr (cells_except A g1)) (outs @ r) (rs @ step y)"
    using g1(4) by (rule list_all2_appendI)
  from Cons.IH [OF up g1(3) this]
  obtain g' outs' where "for_each body xs g1 = Inr g'" "upd_only {n} g0 g'" "g' ! n = OList outs'"
    "list_all2 (repr (cells_except A g')) outs' ((rs @ step y) @ concat (map step ys))"
    by blast
  then show ?case
    using g1(1) by (simp add: andthen_def)
qed

lemma sections_list_body_refines:
  assumes nA: "n \<in> A" and A: "\<forall>a \<in> A. a < length g" and out: "g ! n = OList outs"
    and sec: "repr (cells_except A g) sec j"
  shows "\<exists>g' r. sections_list_body (VRef n) (idx, sec) g = Inr g' \<and> upd_only {n} g g' \<and>
           g' ! n = OList (outs @ r) \<and>
           list_all2 (repr (cells_except A g')) r (sections_list_step [] (idx, j))"
proof (cases "is_record j")
  case False
  then have "\<not> isinstance_dict g sec"
    using repr_isinstance_dict [OF sec] by simp
  moreover have "sections_list_step [] (idx, j) = []"
    using False by (cases j) (simp_all add: sections_list_step_def)
  ultimately have "sections_list_body (VRef n) (idx, sec) g = Inr g \<and> upd_only {n} g g \<and>
      g ! n = OList (outs @ []) \<and>
      list_all2 (repr (cells_except A g)) [] (sections_list_step [] (idx, j))"
    using out by (simp add: sections_list_body_def upd_only_refl)
  then show ?thesis
    by blast
next
  case True
  then obtain d where j: "j = JDict d"
    by (cases j) simp_all
  obtain a kvs where a: "sec = VRef a" "a < length g" "a \<notin> A" "g ! a = ODict kvs"
    and rel: "entries_rel (cells_except A g) kvs d"
    using sec unfolding j by (rule repr_JDict_D)
  have n: "n < length g" "a \<noteq> n"
    using nA A a(3) by auto
  have inst: "isinstance_dict g sec"
    using a by (simp add: isinstance_dict_ref)
  have key: "has_key kvs ''section_id'' = has_key d ''section_id''"
    by (rule entries_rel_has_key [OF rel])
  show ?thesis
  proof (cases "has_key d ''section_id''")
    case True
    let ?g' = "g[n := OList (outs @ [sec])]"
    have run: "sections_list_body (VRef n) (idx, sec) g = Inr ?g'"
      using inst True key a n out
      by (simp add: sections_list_body_def contains_h_dict append_h_list)
    have up: "upd_only {n} g ?g'"
      by (rule upd_only_store)
    have "repr (cells_except A ?g') sec (JDict d)"
      using sec up unfolding j by (rule repr_upd_only) (simp add: nA)
    moreover have "sections_list_step [] (idx, j) = [JDict d]"
      using True by (simp add: j sections_list_step_def)
    ultimately have reprs: "list_all2 (repr (cells_except A ?g')) [sec] (sections_list_step [] (idx, j))"
      by simp
    have nth: "?g' ! n = OList (outs @ [sec])"
      using n by simp
    show ?thesis
      using run up nth reprs by blast
  next
    case False
    let ?id = "''section_'' @ str_of_nat idx"
    let ?b = "length g"
    let ?g1 = "g @ [ODict (dict_set kvs ''section_id'' (VStr ?id))]"
    let ?g' = "?g1[n := OList (outs @ [VRef ?b])]"
    have "display_h sec ''section_id'' (VStr ?id) g = Inr (VRef ?b, ?g1)"
      using a by (simp add: display_h_dict)
    moreover have "append_h (VRef n) (VRef ?b) ?g1 = Inr ?g'"
      using n out by (simp add: append_h_list nth_append)
    ultimately have run: "sections_list_body (VRef n) (idx, sec) g = Inr ?g'"
      using inst False key a
      by (simp add: sections_list_body_def contains_h_dict)
    have "upd_only {n} g ?g1"
      by (rule upd_only_alloc)
    moreover have "upd_only {n} ?g1 ?g'"
      by (rule upd_only_store)
    ultimately have up: "upd_only {n} g ?g'"
      by (rule upd_only_trans) simp
    have "entries_rel (cells_except A ?g') kvs d"
      using rel up by (rule entries_rel_upd_only) (simp add: nA)
    then have "entries_rel (cells_except A ?g') (dict_set kvs ''section_id'' (VStr ?id))
        (dict_set d ''section_id'' (JStr ?id))"
      by (rule entries_rel_set) (rule repr.intros)
    moreover have "?b \<notin> A" "?b \<noteq> n"
      using A nA by auto
    ultimately have "repr (cells_except A ?g') (VRef ?b)
        (JDict (dict_set d ''section_id'' (JStr ?id)))"
      by (intro repr_dict_at [where kvs = "dict_set kvs ''section_id'' (VStr ?id)"])
         (simp_all add: nth_append)
    moreover have "sections_list_step [] (idx, j) = [JDict (dict_set d ''section_id'' (JStr ?id))]"
      using False by (simp add: j sections_list_step_def)
    ultimately have reprs: "list_all2 (repr (cells_except A ?g')) [VRef ?b]
        (sections_list_step [] (idx, j))"
      by simp
    have nth: "?g' ! n = OList (outs @ [VRef ?b])"
      using n by simp
    show ?thesis
      using run up nth reprs by blast
  qed
qed

lemma sections_dict_body_refines:
  assumes nA: "n \<in> A" and A: "\<forall>a \<in> A. a < length g" and out: "g ! n = OList outs"
    and val: "repr (cells_except A g) v j"
  shows "\<exists>g' r. sections_dict_body (VRef n) (key, v) g = Inr g' \<and> upd_only {n} g g' \<and>
           g' ! n = OList (outs @ r) \<and>
           list_all2 (repr (cells_except A g')) r (sections_dict_step [] (key, j))"
proof -
  let ?b = "length g"
  have n: "n < length g" "?b \<notin> A" "?b \<noteq> n"
    using nA A by auto
  have fresh: "\<exists>g'. sections_dict_body (VRef n) (key, v) g = Inr g' \<and> upd_only {n} g g' \<and>
           g' ! n = OList (outs @ [VRef ?b]) \<and>
           repr (cells_except A g') (VRef ?b) (JDict d')"
    if run: "sections_dict_body (VRef n) (key, v) g
               = append_h (VRef n) (VRef ?b) (g @ [ODict kvs'])"
      and rel: "\<And>g'. upd_only {n} g g' \<Longrightarrow> entries_rel (cells_except A g') kvs' d'"
    for kvs' d'
  proof -
    let ?g1 = "g @ [ODict kvs']"
    let ?g' = "?g1[n := OList (outs @ [VRef ?b])]"
    have "append_h (VRef n) (VRef ?b) ?g1 = Inr ?g'"
      using n out by (simp add: append_h_list nth_append)
    then have run': "sections_dict_body (VRef n) (key, v) g = Inr ?g'"
      using run by simp
    have "upd_only {n} g ?g1"
      by (rule upd_only_alloc)
    moreover have "upd_only {n} ?g1 ?g'"
      by (rule upd_only_store)
    ultimately have up: "upd_only {n} g ?g'"
      by (rule upd_only_trans) simp
    have "repr (cells_except A ?g') (VRef ?b) (JDict d')"
      using n rel [OF up] by (intro repr_dict_at [where kvs = kvs']) (simp_all add: nth_append)
    moreover have "?g' ! n = OList (outs @ [VRef ?b])"
      using n by simp
    ultimately show ?thesis
      using run' up by blast
  qed
  show ?thesis
  proof (cases "is_record j")
    case True
    then obtain d where j: "j = JDict d"
      by (cases j) simp_all
    obtain a kvs where a: "v = VRef a" "a < length g" "a \<notin> A" "g ! a = ODict kvs"
      and rel: "entries_rel (cells_except A g) kvs d"
      using val unfolding j by (rule repr_JDict_D)
    have "isinstance_dict g v"
      using a by (simp add: isinstance_dict_ref)
    then have run: "sections_dict_body (VRef n) (key, v) g
        = append_h (VRef n) (VRef ?b) (g @ [ODict (dict_set kvs ''section_id'' (VStr key))])"
      using a by (simp add: sections_dict_body_def display_h_dict)
    have "entries_rel (cells_except A g') (dict_set kvs ''section_id'' (VStr key))
        (dict_set d ''section_id'' (JStr key))" if up: "upd_only {n} g g'" for g'
    proof -
      have "entries_rel (cells_except A g') kvs d"
        using rel up by (rule entries_rel_upd_only) (simp add: nA)
      then show ?thesis
        by (rule entries_rel_set) (rule repr.intros)
    qed
    from fresh [OF run this]
    obtain g' where "sections_dict_body (VRef n) (key, v) g = Inr g'" "upd_only {n} g g'"
      "g' ! n = OList (outs @ [VRef ?b])"
      "repr (cells_except A g') (VRef ?b) (JDict (dict_set d ''section_id'' (JStr key)))"
      by blast
    moreover have "sections_dict_step [] (key, j) = [JDict (dict_set d ''section_id'' (JStr key))]"
      by (simp add: j sections_dict_step_def)
    ultimately have "sections_dict_body (VRef n) (key, v) g = Inr g' \<and> upd_only {n} g g' \<and>
        g' ! n = OList (outs @ [VRef ?b]) \<and>
        list_all2 (repr (cells_except A g')) [VRef ?b] (sections_dict_step [] (key, j))"
      by simp
    then show ?thesis by blast
  next
    case False
    then have "\<not> isinstance_dict g v"
      using repr_isinstance_dict [OF val] by simp
    then have run: "sections_dict_body (VRef n) (key, v) g
        = append_h (VRef n) (VRef ?b) (g @ [ODict [(''section_id'', VStr key), (''value'', v)]])"
      by (simp add: sections_dict_body_def alloc_def)
    have "entries_rel (cells_except A g') [(''section_id'', VStr key), (''value'', v)]
        [(''section_id'', JStr key), (''value'', j)]" if up: "upd_only {n} g g'" for g'
    proof -
      have "repr (cells_except A g') v j"
        using val up by (rule repr_upd_only) (simp add: nA)
      then show ?thesis
        by (simp add: entries_rel_def repr.intros)
    qed
    from fresh [OF run this]
    obtain g' where "sections_dict_body (VRef n) (key, v) g = Inr g'" "upd_only {n} g g'"
      "g' ! n = OList (outs @ [VRef ?b])"
      "repr (cells_except A g') (VRef ?b) (JDict [(''section_id'', JStr key), (''value'', j)])"
      by blast
    moreover have "sections_dict_step [] (key, j) = [JDict [(''section_id'', JStr key), (''value'', j)]]"
      using False by (cases j) (simp_all add: sections_dict_step_def)
    ultimately have "sections_dict_body (VRef n) (key, v) g = Inr g' \<and> upd_only {n} g g' \<and>
        g' ! n = OList (outs @ [VRef ?b]) \<and>
        list_all2 (repr (cells_except A g')) [VRef ?b] (sections_dict_step [] (key, j))"
      by simp
    then show ?thesis by blast
  qed
qed

lemma foldl_sections_list_step:
  "foldl sections_list_step [] ps = concat (map (sections_list_step []) ps)"
proof -
  have "foldl sections_list_step [] ps = [] @ concat (map (sections_list_step []) ps)"
    by (rule foldl_append_step) (rule sections_list_step_append)
  then show ?thesis by simp
qed

lemma foldl_sections_dict_step:
  "foldl sections_dict_step [] ps = concat (map (sections_dict_step []) ps)"
proof -
  have "foldl sections_dict_step [] ps = [] @ concat (map (sections_dict_step []) ps)"
    by (rule foldl_append_step) (rule sections_dict_step_append)
  then show ?thesis by simp
qed

lemma list_all2_enumerate:
  "list_all2 P xs ys \<Longrightarrow>
   list_all2 (\<lambda>p q. fst p = fst q \<and> P (snd p) (snd q)) (enumerate n xs) (enumerate n ys)"
  by (induction arbitrary: n rule: list_all2_induct) auto

lemma new_list_refines:
  assumes A: "\<forall>a \<in> A. a < length h"
    and loop: "upd_only {length h} (h @ [OList []]) g" "g ! length h = OList outs"
      "list_all2 (repr (cells_except (insert (length h) A) g)) outs rs"
  shows "upd_only {} h g \<and> repr (cells_except A g) (VRef (length h)) (JList rs)"
proof
  have "upd_only {} h (h @ [OList []])"
    by (rule upd_only_alloc)
  then show "upd_only {} h g"
    using loop(1) by (rule upd_only_trans) simp
  have len: "length h < length g"
    using loop(1) by (simp add: upd_only_def)
  have "list_all2 (repr (cells_except A g)) outs rs"
    using loop(3)
    by (rule list_all2_mono) (erule repr_mono, rule cells_except_subset, auto)
  with len loop(2) A show "repr (cells_except A g) (VRef (length h)) (JList rs)"
    by (intro repr_list_at [where vs = outs]) auto
qed

lemma cells_except_alloc:
  "\<forall>a \<in> A. a < length h \<Longrightarrow>
   cells_except A h \<subseteq>\<^sub>m cells_except (insert (length h) A) (h @ [ob])"
  by (auto simp: map_le_def cells_except_def dom_def nth_append split: if_splits)

lemma transform_sections_h_refines:
  assumes A: "\<forall>a \<in> A. a < length h" and v: "repr (cells_except A h) v j"
  shows "\<exists>r h'. transform_sections_h v h = Inr (r, h') \<and> upd_only {} h h' \<and>
           repr (cells_except A h') r (JList (transform_sections j))"
proof -
  let ?n = "length h"
  let ?h1 = "h @ [OList []]"
  let ?A = "insert ?n A"
  have A1: "\<forall>a \<in> ?A. a < length ?h1"
    using A by auto
  have start: "upd_only {?n} ?h1 ?h1" "?h1 ! ?n = OList []"
    "list_all2 (repr (cells_except ?A ?h1)) [] []"
    by (simp_all add: upd_only_refl)
  have lift: "cells_except A h \<subseteq>\<^sub>m cells_except ?A ?h1"
    by (rule cells_except_alloc [OF A])
  consider (list) js where "j = JList js" | (dict) d where "j = JDict d"
    | (other) "\<not> is_record j" "\<nexists>js. j = JList js"
    by (cases j) auto
  then show ?thesis
  proof cases
    case (list js)
    obtain a vs where a: "v = VRef a" "a < length h" "a \<notin> A" "h ! a = OList vs"
      and rel: "list_all2 (repr (cells_except A h)) vs js"
      using v unfolding list by (rule repr_JList_D)
    have "list_all2 (repr (cells_except ?A ?h1)) vs js"
      using rel by (rule list_all2_mono) (erule repr_mono, rule lift)
    then have items: "list_all2 (\<lambda>p q. fst p = fst q \<and> repr (cells_except ?A ?h1) (snd p) (snd q))
        (enumerate 0 vs) (enumerate 0 js)"
      by (rule list_all2_enumerate)
    have body: "\<exists>g' r. sections_list_body (VRef ?n) x g = Inr g' \<and> upd_only {?n} g g' \<and>
           g' ! ?n = OList (outs @ r) \<and>
           list_all2 (repr (cells_except ?A g')) r (sections_list_step [] y)"
      if xy: "fst x = fst y \<and> repr (cells_except ?A ?h1) (snd x) (snd y)"
        and up: "upd_only {?n} ?h1 g" and out: "g ! ?n = OList outs" for x y g outs
    proof -
      have "repr (cells_except ?A g) (snd x) (snd y)"
        using xy [THEN conjunct2] up by (rule repr_upd_only) simp
      moreover have "\<forall>a \<in> ?A. a < length g"
        using A1 up by (auto simp: upd_only_def)
      ultimately show ?thesis
        using sections_list_body_refines [of ?n ?A g outs "snd x" "snd y" "fst x"] out xy
        by (cases x, cases y) simp
    qed
    have "\<exists>g' outs'. for_each (sections_list_body (VRef ?n)) (enumerate 0 vs) ?h1 = Inr g' \<and>
        upd_only {?n} ?h1 g' \<and> g' ! ?n = OList outs' \<and>
        list_all2 (repr (cells_except ?A g')) outs'
          ([] @ concat (map (sections_list_step []) (enumerate 0 js)))"
      by (rule for_each_appends [where body = "sections_list_body (VRef ?n)", OF items _ _ start])
         (simp, erule (2) body)
    then obtain g' outs' where loop:
      "for_each (sections_list_body (VRef ?n)) (enumerate 0 vs) ?h1 = Inr g'"
      "upd_only {?n} ?h1 g'" "g' ! ?n = OList outs'"
      "list_all2 (repr (cells_except ?A g')) outs'
         ([] @ concat (map (sections_list_step []) (enumerate 0 js)))"
      by blast
    have run: "transform_sections_h v h = Inr (VRef ?n, g')"
      using a loop(1)
      by (simp add: transform_sections_h_def isinstance_list_ref alloc_def list_items_list nth_append)
    have "transform_sections j = concat (map (sections_list_step []) (enumerate 0 js))"
      by (simp add: list foldl_sections_list_step)
    then show ?thesis
      using run new_list_refines [OF A loop(2,3)] loop(4) by simp
  next
    case (dict d)
    obtain a kvs where a: "v = VRef a" "a < length h" "a \<notin> A" "h ! a = ODict kvs"
      and rel: "entries_rel (cells_except A h) kvs d"
      using v unfolding dict by (rule repr_JDict_D)
    have items: "list_all2 (\<lambda>p q. fst p = fst q \<and> repr (cells_except ?A ?h1) (snd p) (snd q)) kvs d"
      using entries_rel_mono [OF rel lift] by (simp add: entries_rel_def)
    have body: "\<exists>g' r. sections_dict_body (VRef ?n) x g = Inr g' \<and> upd_only {?n} g g' \<and>
           g' ! ?n = OList (outs @ r) \<and>
           list_all2 (repr (cells_except ?A g')) r (sections_dict_step [] y)"
      if xy: "fst x = fst y \<and> repr (cells_except ?A ?h1) (snd x) (snd y)"
        and up: "upd_only {?n} ?h1 g" and out: "g ! ?n = OList outs" for x y g outs
    proof -
      have "repr (cells_except ?A g) (snd x) (snd y)"
        using xy [THEN conjunct2] up by (rule repr_upd_only) simp
      moreover have "\<forall>a \<in> ?A. a < length g"
        using A1 up by (auto simp: upd_only_def)
      ultimately show ?thesis
        using sections_dict_body_refines [of ?n ?A g outs "snd x" "snd y" "fst x"] out xy
        by (cases x, cases y) simp
    qed
    have "\<exists>g' outs'. for_each (sections_dict_body (VRef ?n)) kvs ?h1 = Inr g' \<and>
        upd_only {?n} ?h1 g' \<and> g' ! ?n = OList outs' \<and>
        list_all2 (repr (cells_except ?A g')) outs' ([] @ concat (map (sections_dict_step []) d))"
      by (rule for_each_appends [where body = "sections_dict_body (VRef ?n)", OF items _ _ start])
         (simp, erule (2) body)
    then obtain g' outs' where loop: "for_each (sections_dict_body (VRef ?n)) kvs ?h1 = Inr g'"
      "upd_only {?n} ?h1 g'" "g' ! ?n = OList outs'"
      "list_all2 (repr (cells_except ?A g')) outs'
         ([] @ concat (map (sections_dict_step []) d))"
      by blast
    have run: "transform_sections_h v h = Inr (VRef ?n, g')"
      using a loop(1)
      by (simp add: transform_sections_h_def isinstance_list_ref isinstance_dict_ref alloc_def
          dict_items_dict nth_append)
    have "transform_sections j = concat (map (sections_dict_step []) d)"
      by (simp add: dict foldl_sections_dict_step)
    then show ?thesis
      using run new_list_refines [OF A loop(2,3)] loop(4) by simp
  next
    case other
    have "\<not> isinstance_list h v" "\<not> isinstance_dict h v"
      using other repr_isinstance_list [OF v] repr_isinstance_dict [OF v] by simp_all
    then have run: "transform_sections_h v h = Inr (VRef ?n, ?h1)"
      by (simp add: transform_sections_h_def alloc_def)
    have "transform_sections j = []"
      using other by (cases j) simp_all
    then show ?thesis
      using run new_list_refines [OF A start] by simp
  qed
qed

lemma upd_only_nth: "upd_only B h h' \<Longrightarrow> a < length h \<Longrightarrow> a \<notin> B \<Longrightarrow> h' ! a = h ! a"
  by (simp add: upd_only_def)

lemma upd_only_length: "upd_only B h h' \<Longrightarrow> length h \<le> length h'"
  by (simp add: upd_only_def)

lemma upd_only_fresh:
  "upd_only B h h1 \<Longrightarrow> length h \<le> b \<Longrightarrow> upd_only B h (h1[b := ob])"
  by (auto simp: upd_only_def)

lemma part_appended:
  assumes nA: "n \<in> A" and A: "\<forall>a \<in> A. a < length g"
    and g4: "upd_only {} g g4" "length g \<le> b" "b < length g4" "g4 ! b = ODict es"
    and out: "g ! n = OList outs"
    and rel: "entries_rel (cells_except A (g4[n := OList (outs @ [VRef b])])) es d"
  shows "\<exists>g'. append_h (VRef n) (VRef b) g4 = Inr g' \<and> upd_only {n} g g' \<and>
           g' ! n = OList (outs @ [VRef b]) \<and> repr (cells_except A g') (VRef b) (JDict d)"
proof -
  let ?g' = "g4[n := OList (outs @ [VRef b])]"
  have n: "n < length g" "n \<noteq> b" "b \<notin> A"
    using nA A g4(2) by auto
  have n4: "n < length g4" "g4 ! n = OList outs"
    using n(1) upd_only_length [OF g4(1)] upd_only_nth [OF g4(1) n(1)] out by simp_all
  have run: "append_h (VRef n) (VRef b) g4 = Inr ?g'"
    using n4 by (simp add: append_h_list)
  have "upd_only {n} g g4"
    using g4(1) by (rule upd_only_weaken) simp
  moreover have "upd_only {n} g4 ?g'"
    by (rule upd_only_store)
  ultimately have up: "upd_only {n} g ?g'"
    by (rule upd_only_trans) simp
  have nth: "?g' ! n = OList (outs @ [VRef b])"
    using n4 by simp
  have "repr (cells_except A ?g') (VRef b) (JDict d)"
    using g4 n rel by (intro repr_dict_at [where kvs = es]) simp_all
  then show ?thesis
    using run up nth by blast
qed

lemma parts_list_body_refines:
  assumes nA: "n \<in> A" and A: "\<forall>a \<in> A. a < length g" and out: "g ! n = OList outs"
    and part: "repr (cells_except A g) part j"
  shows "\<exists>g' r. parts_list_body (VRef n) part g = Inr g' \<and> upd_only {n} g g' \<and>
           g' ! n = OList (outs @ r) \<and>
           list_all2 (repr (cells_except A g')) r (parts_list_step [] j)"
proof (cases "is_record j")
  case False
  then have "\<not> isinstance_dict g part"
    using repr_isinstance_dict [OF part] by simp
  moreover have "parts_list_step [] j = []"
    using False by (cases j) (simp_all add: parts_list_step_def)
  ultimately have "parts_list_body (VRef n) part g = Inr g \<and> upd_only {n} g g \<and>
      g ! n = OList (outs @ []) \<and>
      list_all2 (repr (cells_except A g)) [] (parts_list_step [] j)"
    using out by (simp add: parts_list_body_def upd_only_refl)
  then show ?thesis by blast
next
  case True
  then obtain p where j: "j = JDict p"
    by (cases j) simp_all
  obtain a kvs where a: "part = VRef a" "a < length g" "a \<notin> A" "g ! a = ODict kvs"
    and rel: "entries_rel (cells_except A g) kvs p"
    using part unfolding j by (rule repr_JDict_D)
  let ?pn = "entries_get kvs ''part_name''"
  let ?raw = "entries_get kvs ''sections''"
  let ?S = "transform_sections (dict_get p ''sections'')"
  let ?base = "dict_set (dict_without ''sections'' p) ''sections'' (JList ?S)"
  have inst: "isinstance_dict g part"
    using a by (simp add: isinstance_dict_ref)
  have raw: "repr (cells_except A g) ?raw (dict_get p ''sections'')"
    by (rule entries_rel_get [OF rel])
  obtain secs g1 where secs: "transform_sections_h ?raw g = Inr (secs, g1)"
    and up1: "upd_only {} g g1" and S: "repr (cells_except A g1) secs (JList ?S)"
    using transform_sections_h_refines [OF A raw] by blast
  let ?b = "length g1"
  let ?E3 = "dict_set (dict_without ''sections'' kvs) ''sections'' secs"
  let ?g2 = "g1 @ [ODict (dict_without ''sections'' kvs)]"
  let ?g3 = "?g2[?b := ODict ?E3]"
  let ?name = "entries_get ?E3 ''part_name''"
  have a1: "a < length g1" "g1 ! a = ODict kvs"
    using a upd_only_length [OF up1] upd_only_nth [OF up1 a(2)] by simp_all
  have len: "length g \<le> ?b"
    by (rule upd_only_length [OF up1])
  have step_without: "without_h ''sections'' part g1 = Inr (VRef ?b, ?g2)"
    using a(1) a1 by (simp add: without_h_dict)
  have step_set: "setitem_h (VRef ?b) ''sections'' secs ?g2 = Inr ?g3"
    by (simp add: setitem_h_dict)
  have step_get: "get_h ?g3 (VRef ?b) ''part_name'' = Inr ?name"
    by (simp add: get_h_dict)
  have up2: "upd_only {} g ?g2"
    by (rule upd_only_trans [OF up1 upd_only_alloc [of "{}"]]) simp
  have up3: "upd_only {} g ?g3"
    using up2 by (rule upd_only_fresh) (rule len)
  have up13: "upd_only {} g1 ?g3"
    by (rule upd_only_fresh [OF upd_only_alloc [of "{}"]]) simp
  have lifted: "entries_rel (cells_except A gx) ?E3 ?base
      \<and> repr (cells_except A gx) ?pn (dict_get p ''part_name'')"
    if "upd_only {n} g gx" "upd_only {n} g1 gx" for gx
  proof -
    have kvs: "entries_rel (cells_except A gx) kvs p"
      using rel that(1) by (rule entries_rel_upd_only) (simp add: nA)
    have "repr (cells_except A gx) secs (JList ?S)"
      using S that(2) by (rule repr_upd_only) (simp add: nA)
    then have "entries_rel (cells_except A gx) ?E3 ?base"
      by (intro entries_rel_set entries_rel_without kvs)
    then show ?thesis
      using entries_rel_get [OF kvs] by simp
  qed
  have at3: "entries_rel (cells_except A ?g3) ?E3 ?base"
    "repr (cells_except A ?g3) ?pn (dict_get p ''part_name'')"
    using lifted [of ?g3] upd_only_weaken [OF up3] upd_only_weaken [OF up13] by simp_all
  have truth_name: "truthy_h ?g3 ?name = truthy (dict_get ?base ''part_name'')"
    by (rule repr_truthy [OF entries_rel_get [OF at3(1)]])
  have truth_pn: "truthy_h ?g3 ?pn = truthy (dict_get p ''part_name'')"
    by (rule repr_truthy [OF at3(2)])
  show ?thesis
  proof (cases "truthy (dict_get ?base ''part_name'')")
    case named: True
    have final: "\<exists>g'. append_h (VRef n) (VRef ?b) ?g3 = Inr g' \<and> upd_only {n} g g' \<and>
           g' ! n = OList (outs @ [VRef ?b]) \<and> repr (cells_except A g') (VRef ?b) (JDict ?base)"
    proof (rule part_appended [OF nA A up3 len _ _ out])
      show "?b < length ?g3" by simp
      show "?g3 ! ?b = ODict ?E3" by simp
      let ?g' = "?g3[n := OList (outs @ [VRef ?b])]"
      have "upd_only {n} g ?g'" "upd_only {n} g1 ?g'"
        using upd_only_trans [OF upd_only_weaken [OF up3] upd_only_store [of n ?g3], of "{n}"]
          upd_only_trans [OF upd_only_weaken [OF up13] upd_only_store [of n ?g3], of "{n}"]
        by simp_all
      then show "entries_rel (cells_except A ?g') ?E3 ?base"
        using lifted by blast
    qed
    then obtain g' where g': "append_h (VRef n) (VRef ?b) ?g3 = Inr g'" "upd_only {n} g g'"
      "g' ! n = OList (outs @ [VRef ?b])" "repr (cells_except A g') (VRef ?b) (JDict ?base)"
      by blast
    have run: "parts_list_body (VRef n) part g = Inr g'"
      using inst a secs step_without step_set step_get truth_name named g'(1)
      by (simp add: parts_list_body_def get_h_dict)
    have "parts_list_step [] j = [JDict ?base]"
      using named by (simp add: j parts_list_step_def Let_def)
    then have "list_all2 (repr (cells_except A g')) [VRef ?b] (parts_list_step [] j)"
      using g'(4) by simp
    then show ?thesis
      using run g'(2,3) by blast
  next
    case unnamed: False
    define X where "X = (if truthy_h ?g3 ?pn then ?pn else VStr ''Part'')"
    let ?E4 = "dict_set ?E3 ''part_name'' X"
    let ?g4 = "?g3[?b := ODict ?E4]"
    let ?base' = "dict_set ?base ''part_name'' (py_or (dict_get p ''part_name'') (JStr ''Part''))"
    have X: "repr c X (py_or (dict_get p ''part_name'') (JStr ''Part''))"
      if "repr c ?pn (dict_get p ''part_name'')" for c
      using that unfolding X_def truth_pn py_or_def by (simp add: repr.intros)
    have step_name: "setitem_h (VRef ?b) ''part_name'' X ?g3 = Inr ?g4"
      by (simp add: setitem_h_dict)
    have up4: "upd_only {} g ?g4"
      using up3 by (rule upd_only_fresh) (rule len)
    have up14: "upd_only {} g1 ?g4"
      using up13 by (rule upd_only_fresh) simp
    have final: "\<exists>g'. append_h (VRef n) (VRef ?b) ?g4 = Inr g' \<and> upd_only {n} g g' \<and>
           g' ! n = OList (outs @ [VRef ?b]) \<and> repr (cells_except A g') (VRef ?b) (JDict ?base')"
    proof (rule part_appended [OF nA A up4 len _ _ out])
      show "?b < length ?g4" by simp
      show "?g4 ! ?b = ODict ?E4" by simp
      let ?g' = "?g4[n := OList (outs @ [VRef ?b])]"
      have "upd_only {n} g ?g'" "upd_only {n} g1 ?g'"
        using upd_only_trans [OF upd_only_weaken [OF up4] upd_only_store [of n ?g4], of "{n}"]
          upd_only_trans [OF upd_only_weaken [OF up14] upd_only_store [of n ?g4], of "{n}"]
        by simp_all
      then have l: "entries_rel (cells_except A ?g') ?E3 ?base"
        "repr (cells_except A ?g') ?pn (dict_get p ''part_name'')"
        using lifted by blast+
      show "entries_rel (cells_except A ?g') ?E4 ?base'"
        using l(1) X [OF l(2)] by (rule entries_rel_set)
    qed
    then obtain g' where g': "append_h (VRef n) (VRef ?b) ?g4 = Inr g'" "upd_only {n} g g'"
      "g' ! n = OList (outs @ [VRef ?b])" "repr (cells_except A g') (VRef ?b) (JDict ?base')"
      by blast
    have "parts_list_body (VRef n) part g
        = andthen (setitem_h (VRef ?b) ''part_name'' X ?g3) (append_h (VRef n) (VRef ?b))"
      unfolding X_def
      using inst a secs step_without step_set step_get truth_name unnamed
      by (simp add: parts_list_body_def get_h_dict)
    then have run: "parts_list_body (VRef n) part g = Inr g'"
      by (simp only: step_name andthen_simps g'(1))
    have "parts_list_step [] j = [JDict ?base']"
      using unnamed by (simp add: j parts_list_step_def Let_def)
    then have "list_all2 (repr (cells_except A g')) [VRef ?b] (parts_list_step [] j)"
      using g'(4) by simp
    then show ?thesis
      using run g'(2,3) by blast
  qed
qed

lemma parts_dict_body_refines:
  assumes nA: "n \<in> A" and A: "\<forall>a \<in> A. a < length g" and out: "g ! n = OList outs"
    and val: "repr (cells_except A g) v j"
  shows "\<exists>g' r. parts_dict_body (VRef n) (key, v) g = Inr g' \<and> upd_only {n} g g' \<and>
           g' ! n = OList (outs @ r) \<and>
           list_all2 (repr (cells_except A g')) r (parts_dict_step [] (key, j))"
proof (cases "is_record j")
  case False
  let ?s = "length g"
  let ?b = "Suc (length g)"
  let ?es = "[(''part_name'', VStr key), (''value'', v), (''sections'', VRef ?s)]"
  let ?d = "[(''part_name'', JStr key), (''value'', j), (''sections'', JList [])]"
  let ?h2 = "(g @ [OList []]) @ [ODict ?es]"
  have "\<not> isinstance_dict g v"
    using False repr_isinstance_dict [OF val] by simp
  then have run: "parts_dict_body (VRef n) (key, v) g = append_h (VRef n) (VRef ?b) ?h2"
    by (simp add: parts_dict_body_def alloc_def)
  have up2: "upd_only {} g ?h2"
    by (rule upd_only_trans [OF upd_only_alloc [of "{}"] upd_only_alloc [of "{}"]]) simp
  have "\<exists>g'. append_h (VRef n) (VRef ?b) ?h2 = Inr g' \<and> upd_only {n} g g' \<and>
      g' ! n = OList (outs @ [VRef ?b]) \<and> repr (cells_except A g') (VRef ?b) (JDict ?d)"
  proof (rule part_appended [OF nA A up2 _ _ _ out])
    show "length g \<le> ?b" by simp
    show "?b < length ?h2" by simp
    show "?h2 ! ?b = ODict ?es" by (simp add: nth_append)
    let ?g' = "?h2[n := OList (outs @ [VRef ?b])]"
    have n: "n < length g" "?s \<notin> A"
      using nA A by auto
    have up: "upd_only {n} g ?g'"
      using upd_only_trans [OF upd_only_weaken [OF up2] upd_only_store [of n ?h2], of "{n}"]
      by simp
    have "repr (cells_except A ?g') v j"
      using val up by (rule repr_upd_only) (simp add: nA)
    moreover have "repr (cells_except A ?g') (VRef ?s) (JList [])"
      using n by (intro repr_list_at [where vs = "[]"]) (simp_all add: nth_append)
    ultimately show "entries_rel (cells_except A ?g') ?es ?d"
      by (simp add: entries_rel_def repr.intros)
  qed
  then obtain g' where g': "append_h (VRef n) (VRef ?b) ?h2 = Inr g'" "upd_only {n} g g'"
    "g' ! n = OList (outs @ [VRef ?b])" "repr (cells_except A g') (VRef ?b) (JDict ?d)"
    by blast
  have "parts_dict_step [] (key, j) = [JDict ?d]"
    using False by (cases j) (simp_all add: parts_dict_step_def)
  then have "list_all2 (repr (cells_except A g')) [VRef ?b] (parts_dict_step [] (key, j))"
    using g'(4) by simp
  then show ?thesis
    using run g'(1,2,3) by (metis (no_types, lifting))
next
  case True
  then obtain d where j: "j = JDict d"
    by (cases j) simp_all
  obtain a kvs where a: "v = VRef a" "a < length g" "a \<notin> A" "g ! a = ODict kvs"
    and rel: "entries_rel (cells_except A g) kvs d"
    using val unfolding j by (rule repr_JDict_D)
  let ?own = "entries_get kvs ''part_name''"
  let ?raw = "entries_get kvs ''sections''"
  let ?S = "transform_sections (dict_get d ''sections'')"
  define X where "X = (if truthy_h g ?own then ?own else VStr key)"
  let ?name = "py_or (dict_get d ''part_name'') (JStr key)"
  let ?base = "dict_set (dict_set (dict_without ''sections'' d) ''part_name'' ?name)
                 ''sections'' (JList ?S)"
  have inst: "isinstance_dict g v"
    using a by (simp add: isinstance_dict_ref)
  have truth: "truthy_h g ?own = truthy (dict_get d ''part_name'')"
    by (rule repr_truthy [OF entries_rel_get [OF rel]])
  have X: "repr c X ?name" if "repr c ?own (dict_get d ''part_name'')" for c
    using that unfolding X_def truth py_or_def by (simp add: repr.intros)
  have raw: "repr (cells_except A g) ?raw (dict_get d ''sections'')"
    by (rule entries_rel_get [OF rel])
  obtain secs g1 where secs: "transform_sections_h ?raw g = Inr (secs, g1)"
    and up1: "upd_only {} g g1" and S: "repr (cells_except A g1) secs (JList ?S)"
    using transform_sections_h_refines [OF A raw] by blast
  let ?b = "length g1"
  let ?E3 = "dict_set (dict_without ''sections'' kvs) ''part_name'' X"
  let ?E4 = "dict_set ?E3 ''sections'' secs"
  let ?g2 = "g1 @ [ODict (dict_without ''sections'' kvs)]"
  let ?g3 = "?g2[?b := ODict ?E3]"
  let ?g4 = "?g3[?b := ODict ?E4]"
  have a1: "a < length g1" "g1 ! a = ODict kvs"
    using a upd_only_length [OF up1] upd_only_nth [OF up1 a(2)] by simp_all
  have len: "length g \<le> ?b"
    by (rule upd_only_length [OF up1])
  have step_without: "without_h ''sections'' v g1 = Inr (VRef ?b, ?g2)"
    using a(1) a1 by (simp add: without_h_dict)
  have step_name: "setitem_h (VRef ?b) ''part_name'' X ?g2 = Inr ?g3"
    by (simp add: setitem_h_dict)
  have step_secs: "setitem_h (VRef ?b) ''sections'' secs ?g3 = Inr ?g4"
    by (simp add: setitem_h_dict)
  have up2: "upd_only {} g ?g2"
    by (rule upd_only_trans [OF up1 upd_only_alloc [of "{}"]]) simp
  have up4: "upd_only {} g ?g4"
    by (intro upd_only_fresh up2 len)
  have up14: "upd_only {} g1 ?g4"
    by (intro upd_only_fresh upd_only_alloc) simp_all
  have "\<exists>g'. append_h (VRef n) (VRef ?b) ?g4 = Inr g' \<and> upd_only {n} g g' \<and>
      g' ! n = OList (outs @ [VRef ?b]) \<and> repr (cells_except A g') (VRef ?b) (JDict ?base)"
  proof (rule part_appended [OF nA A up4 len _ _ out])
    show "?b < length ?g4" by simp
    show "?g4 ! ?b = ODict ?E4" by simp
    let ?g' = "?g4[n := OList (outs @ [VRef ?b])]"
    have ups: "upd_only {n} g ?g'" "upd_only {n} g1 ?g'"
      using upd_only_trans [OF upd_only_weaken [OF up4] upd_only_store [of n ?g4], of "{n}"]
        upd_only_trans [OF upd_only_weaken [OF up14] upd_only_store [of n ?g4], of "{n}"]
      by simp_all
    have kvs: "entries_rel (cells_except A ?g') kvs d"
      using rel ups(1) by (rule entries_rel_upd_only) (simp add: nA)
    have secs': "repr (cells_except A ?g') secs (JList ?S)"
      using S ups(2) by (rule repr_upd_only) (simp add: nA)
    have "entries_rel (cells_except A ?g') ?E3
        (dict_set (dict_without ''sections'' d) ''part_name'' ?name)"
      by (intro entries_rel_set entries_rel_without kvs X entries_rel_get)
    then show "entries_rel (cells_except A ?g') ?E4 ?base"
      using secs' by (rule entries_rel_set)
  qed
  then obtain g' where g': "append_h (VRef n) (VRef ?b) ?g4 = Inr g'" "upd_only {n} g g'"
    "g' ! n = OList (outs @ [VRef ?b])" "repr (cells_except A g') (VRef ?b) (JDict ?base)"
    by blast
  have "parts_dict_body (VRef n) (key, v) g
      = andthen (without_h ''sections'' v g1) (\<lambda>(base, h2).
        andthen (setitem_h base ''part_name'' X h2) (\<lambda>h3.
        andthen (setitem_h base ''sections'' secs h3) (\<lambda>h4.
        append_h (VRef n) base h4)))"
    unfolding X_def using inst a secs
    by (simp add: parts_dict_body_def get_h_dict)
  then have run: "parts_dict_body (VRef n) (key, v) g = Inr g'"
    by (simp only: step_without step_name step_secs andthen_simps prod.case g'(1))
  have "parts_dict_step [] (key, j) = [JDict ?base]"
    by (simp add: j parts_dict_step_def Let_def)
  then have "list_all2 (repr (cells_except A g')) [VRef ?b] (parts_dict_step [] (key, j))"
    using g'(4) by simp
  then show ?thesis
    using run g'(2,3) by blast
qed

lemma foldl_parts_list_step:
  "foldl parts_list_step [] ps = concat (map (parts_list_step []) ps)"
proof -
  have "foldl parts_list_step [] ps = [] @ concat (map (parts_list_step []) ps)"
    by (rule foldl_append_step) (rule parts_list_step_append)
  then show ?thesis by simp
qed

lemma foldl_parts_dict_step:
  "foldl parts_dict_step [] ps = concat (map (parts_dict_step []) ps)"
proof -
  have "foldl parts_dict_step [] ps = [] @ concat (map (parts_dict_step []) ps)"
    by (rule foldl_append_step) (rule parts_dict_step_append)
  then show ?thesis by simp
qed

lemma transform_parts_h_refines:
  assumes A: "\<forall>a \<in> A. a < length h" and v: "repr (cells_except A h) v j"
  shows "\<exists>r h'. transform_parts_h v h = Inr (r, h') \<and> upd_only {} h h' \<and>
           repr (cells_except A h') r (JList (transform_parts j))"
proof -
  let ?n = "length h"
  let ?h1 = "h @ [OList []]"
  let ?A = "insert ?n A"
  have A1: "\<forall>a \<in> ?A. a < length ?h1"
    using A by auto
  have start: "upd_only {?n} ?h1 ?h1" "?h1 ! ?n = OList []"
    "list_all2 (repr (cells_except ?A ?h1)) [] []"
    by (simp_all add: upd_only_refl)
  have lift: "cells_except A h \<subseteq>\<^sub>m cells_except ?A ?h1"
    by (rule cells_except_alloc [OF A])
  consider (list) js where "j = JList js" | (dict) d where "j = JDict d"
    | (other) "\<not> is_record j" "\<nexists>js. j = JList js"
    by (cases j) auto
  then show ?thesis
  proof cases
    case (list js)
    obtain a vs where a: "v = VRef a" "a < length h" "a \<notin> A" "h ! a = OList vs"
      and rel: "list_all2 (repr (cells_except A h)) vs js"
      using v unfolding list by (rule repr_JList_D)
    have items: "list_all2 (repr (cells_except ?A ?h1)) vs js"
      using rel by (rule list_all2_mono) (erule repr_mono, rule lift)
    have body: "\<exists>g' r. parts_list_body (VRef ?n) x g = Inr g' \<and> upd_only {?n} g g' \<and>
           g' ! ?n = OList (outs @ r) \<and>
           list_all2 (repr (cells_except ?A g')) r (parts_list_step [] y)"
      if xy: "repr (cells_except ?A ?h1) x y"
        and up: "upd_only {?n} ?h1 g" and out: "g ! ?n = OList outs" for x y g outs
    proof -
      have "repr (cells_except ?A g) x y"
        using xy up by (rule repr_upd_only) simp
      moreover have "\<forall>a \<in> ?A. a < length g"
        using A1 up by (auto simp: upd_only_def)
      ultimately show ?thesis
        using parts_list_body_refines [of ?n ?A g outs x y] out by simp
    qed
    have "\<exists>g' outs'. for_each (parts_list_body (VRef ?n)) vs ?h1 = Inr g' \<and>
        upd_only {?n} ?h1 g' \<and> g' ! ?n = OList outs' \<and>
        list_all2 (repr (cells_except ?A g')) outs' ([] @ concat (map (parts_list_step []) js))"
      by (rule for_each_appends [where body = "parts_list_body (VRef ?n)", OF items _ _ start])
         (simp, erule (2) body)
    then obtain g' outs' where loop: "for_each (parts_list_body (VRef ?n)) vs ?h1 = Inr g'"
      "upd_only {?n} ?h1 g'" "g' ! ?n = OList outs'"
      "list_all2 (repr (cells_except ?A g')) outs' ([] @ concat (map (parts_list_step []) js))"
      by blast
    have run: "transform_parts_h v h = Inr (VRef ?n, g')"
      using a loop(1)
      by (simp add: transform_parts_h_def isinstance_list_ref alloc_def list_items_list nth_append)
    have "transform_parts j = concat (map (parts_list_step []) js)"
      by (simp add: list foldl_parts_list_step)
    then show ?thesis
      using run new_list_refines [OF A loop(2,3)] loop(4) by simp
  next
    case (dict d)
    obtain a kvs where a: "v = VRef a" "a < length h" "a \<notin> A" "h ! a = ODict kvs"
      and rel: "entries_rel (cells_except A h) kvs d"
      using v unfolding dict by (rule repr_JDict_D)
    have items: "list_all2 (\<lambda>p q. fst p = fst q \<and> repr (cells_except ?A ?h1) (snd p) (snd q)) kvs d"
      using entries_rel_mono [OF rel lift] by (simp add: entries_rel_def)
    have body: "\<exists>g' r. parts_dict_body (VRef ?n) x g = Inr g' \<and> upd_only {?n} g g' \<and>
           g' ! ?n = OList (outs @ r) \<and>
           list_all2 (repr (cells_except ?A g')) r (parts_dict_step [] y)"
      if xy: "fst x = fst y \<and> repr (cells_except ?A ?h1) (snd x) (snd y)"
        and up: "upd_only {?n} ?h1 g" and out: "g ! ?n = OList outs" for x y g outs
    proof -
      have "repr (cells_except ?A g) (snd x) (snd y)"
        using xy [THEN conjunct2] up by (rule repr_upd_only) simp
      moreover have "\<forall>a \<in> ?A. a < length g"
        using A1 up by (auto simp: upd_only_def)
      ultimately show ?thesis
        using parts_dict_body_refines [of ?n ?A g outs "snd x" "snd y" "fst x"] out xy
        by (cases x, cases y) simp
    qed
    have "\<exists>g' outs'. for_each (parts_dict_body (VRef ?n)) kvs ?h1 = Inr g' \<and>
        upd_only {?n} ?h1 g' \<and> g' ! ?n = OList outs' \<and>
        list_all2 (repr (cells_except ?A g')) outs' ([] @ concat (map (parts_dict_step []) d))"
      by (rule for_each_appends [where body = "parts_dict_body (VRef ?n)", OF items _ _ start])
         (simp, erule (2) body)
    then obtain g' outs' where loop: "for_each (parts_dict_body (VRef ?n)) kvs ?h1 = Inr g'"
      "upd_only {?n} ?h1 g'" "g' ! ?n = OList outs'"
      "list_all2 (repr (cells_except ?A g')) outs' ([] @ concat (map (parts_dict_step []) d))"
      by blast
    have run: "transform_parts_h v h = Inr (VRef ?n, g')"
      using a loop(1)
      by (simp add: transform_parts_h_def isinstance_list_ref isinstance_dict_ref alloc_def
          dict_items_dict nth_append)
    have "transform_parts j = concat (map (parts_dict_step []) d)"
      by (simp add: dict foldl_parts_dict_step)
    then show ?thesis
      using run new_list_refines [OF A loop(2,3)] loop(4) by simp
  next
    case other
    let ?h2 = "?h1 @ [OList []]"
    have no: "\<not> isinstance_list h v" "\<not> isinstance_dict h v"
      using other repr_isinstance_list [OF v] repr_isinstance_dict [OF v] by simp_all
    have nonref: "v \<noteq> VRef a" for a
      using v other by (auto elim: repr.cases)
    have "\<not> isinstance_list ?h1 v"
      using nonref by (cases v) auto
    moreover have "\<not> isinstance_dict ?h1 v"
      using nonref by (cases v) auto
    ultimately have run: "transform_parts_h v h = Inr (VRef (Suc ?n), ?h2)"
      by (simp add: transform_parts_h_def alloc_def)
    have up: "upd_only {} h ?h2"
      by (rule upd_only_trans [OF upd_only_alloc [of "{}"] upd_only_alloc [of "{}"]]) simp
    have "Suc ?n \<notin> A"
      using A by auto
    then have "repr (cells_except A ?h2) (VRef (Suc ?n)) (JList [])"
      by (intro repr_list_at [where vs = "[]"]) (simp_all add: nth_append)
    moreover have "transform_parts j = []"
      using other by (cases j) simp_all
    ultimately show ?thesis
      using run up by simp
  qed
qed



text \<open>
  Claim C3. \<^verbatim>\<open>transform_sections\<close> and \<^verbatim>\<open>transform_parts\<close> are total: run on any value
  that represents a JSON value (None, a boolean, a number, a string, a list, a mapping,
  nested in any way), each returns without an exception a reference to a list, which
  represents the result of the function on values; and on a value that is neither a
  list nor a mapping that result is the empty list.
\<close>

theorem transform_sections_parts_total:
  assumes "represents h v j"
  shows "(\<exists>out h'. transform_sections_h v h = Inr (out, h') \<and> isinstance_list h' out \<and>
            represents h' out (JList (transform_sections j)))
       \<and> (\<exists>out h'. transform_parts_h v h = Inr (out, h') \<and> isinstance_list h' out \<and>
            represents h' out (JList (transform_parts j)))
       \<and> (\<not> is_record j \<and> (\<nexists>js. j = JList js) \<longrightarrow>
            transform_sections j = [] \<and> transform_parts j = [])"
proof (intro conjI impI)
  have v: "repr (cells_except {} h) v j"
    using assms by (simp add: represents_def)
  obtain out h' where "transform_sections_h v h = Inr (out, h')"
    "repr (cells_except {} h') out (JList (transform_sections j))"
    using transform_sections_h_refines [OF _ v] by auto
  then show "\<exists>out h'. transform_sections_h v h = Inr (out, h') \<and> isinstance_list h' out \<and>
            represents h' out (JList (transform_sections j))"
    using repr_isinstance_list [of "{}" h' out] by (auto simp: represents_def)
  obtain out h' where "transform_parts_h v h = Inr (out, h')"
    "repr (cells_except {} h') out (JList (transform_parts j))"
    using transform_parts_h_refines [OF _ v] by auto
  then show "\<exists>out h'. transform_parts_h v h = Inr (out, h') \<and> isinstance_list h' out \<and>
            represents h' out (JList (transform_parts j))"
    using repr_isinstance_list [of "{}" h' out] by (auto simp: represents_def)
next
  assume "\<not> is_record j \<and> (\<nexists>js. j = JList js)"
  then show "transform_sections j = []" "transform_parts j = []"
    by (cases j; simp)+
qed

theorem transform_sections_parts_total_witness:
  "represents [] (VInt 42) (JInt 42)
   \<and> transform_sections_h (VInt 42) [] = Inr (VRef 0, [OList []])
   \<and> represents [OList [VInt 1, VInt 2, VRef 1], ODict [(''a'', VInt 1)]] (VRef 0)
        (JList [JInt 1, JInt 2, JDict [(''a'', JInt 1)]])
   \<and> (\<exists>out h'. transform_parts_h (VRef 0) [OList [VInt 1, VInt 2, VRef 1], ODict [(''a'', VInt 1)]]
          = Inr (out, h') \<and> isinstance_list h' out \<and>
        represents h' out
          (JList [JDict [(''a'', JInt 1), (''sections'', JList []), (''part_name'', JStr ''Part'')]]))
   \<and> transform_sections (JInt 42) = [] \<and> transform_parts (JInt 42) = []"
proof -
  let ?h = "[OList [VInt 1, VInt 2, VRef 1], ODict [(''a'', VInt 1)]]"
  let ?j = "JList [JInt 1, JInt 2, JDict [(''a'', JInt 1)]]"
  have r1: "represents [] (VInt 42) (JInt 42)"
    by (simp add: represents_def repr.intros)
  have inner: "repr (cells_except {} ?h) (VRef 1) (JDict [(''a'', JInt 1)])"
    by (rule repr_dict_at [where kvs = "[(''a'', VInt 1)]"])
       (simp_all add: entries_rel_def repr.intros)
  have r2: "represents ?h (VRef 0) ?j"
    unfolding represents_def using inner
    by (intro repr_list_at [where vs = "[VInt 1, VInt 2, VRef 1]"])
       (simp_all add: repr.intros)
  have p: "transform_parts ?j
      = [JDict [(''a'', JInt 1), (''sections'', JList []), (''part_name'', JStr ''Part'')]]"
    by code_simp
  have s: "transform_sections_h (VInt 42) [] = Inr (VRef 0, [OList []])"
    by (simp add: transform_sections_h_def alloc_def)
  show ?thesis
    using r1 r2 s transform_sections_parts_total [OF r1] transform_sections_parts_total [OF r2] unfolding p by simp
qed



end
